theory Spec2Isabelle
  imports Main "HOL-Library.Word"
begin

section \<open>Thrown values and observable effects\<close>

text \<open>
  A value thrown by an operation, as \<^verbatim>\<open>catch (error: any)\<close> of \<^verbatim>\<open>withRetry\<close> receives it.
  The service inspects three properties of it: \<^verbatim>\<open>error?.status\<close>, \<^verbatim>\<open>error?.code\<close> and
  \<^verbatim>\<open>error?.message\<close>. Status and code are only compared with the number 429
  (\<open>None\<close>: absent, or not a number). The message is tested for truthiness and then asked
  for \<^verbatim>\<open>includes\<close>, so what matters of it is:

    \<^item> \<open>Falsy\<close>: absent, or any falsy value (\<^verbatim>\<open>undefined\<close>, \<^verbatim>\<open>null\<close>, \<^verbatim>\<open>0\<close>, \<^verbatim>\<open>false\<close>);
    \<^item> \<open>Str m\<close>: the string \<open>m\<close> (falsy when empty);
    \<^item> \<open>Other None\<close>: a truthy value that is not a string and has no callable
      \<^verbatim>\<open>includes\<close> (a number such as \<^verbatim>\<open>42\<close>, \<^verbatim>\<open>true\<close>, a plain object);
    \<^item> \<open>Other (Some f)\<close>: a truthy value that is not a string and has a callable
      \<^verbatim>\<open>includes\<close> (an array), \<open>f p\<close> being what \<^verbatim>\<open>includes(p)\<close> does: it returns a truthy
      or a falsy value, or throws.
\<close>

datatype message_value = Falsy | Str string | Other "(string \<Rightarrow> js_error + bool) option"
  and js_error = JsError (status: "int option") (code: "int option") (message: message_value)

text \<open>\<^verbatim>\<open>new Error(msg)\<close>: a message and neither status nor code.\<close>

definition Error :: "string \<Rightarrow> js_error" where
  "Error msg = JsError None None (Str msg)"

text \<open>The \<^verbatim>\<open>TypeError\<close> of calling \<^verbatim>\<open>error.message.includes\<close> when it is not a function.\<close>

definition not_a_function :: js_error where
  "not_a_function = Error ''error.message.includes is not a function''"

text \<open>
  The effects of the program, in the order they happen. The state threaded through the
  model is the history of effects so far; whatever lies outside the program (the
  generative endpoint, the lifetime of the component) answers as a function of it.
\<close>

datatype event =
    Attempt                   \<comment> \<open>one invocation of an operation given to \<^verbatim>\<open>withRetry\<close>\<close>
  | Request string string     \<comment> \<open>\<^verbatim>\<open>ai.models.generateContent\<close>: model name and contents\<close>
  | Warned nat                \<comment> \<open>\<^verbatim>\<open>console.warn\<close> of a retry, with the wait in ms\<close>
  | Delayed nat               \<comment> \<open>\<^verbatim>\<open>await delay(ms)\<close> in \<^verbatim>\<open>withRetry\<close>\<close>
  | Paced nat                 \<comment> \<open>the awaited \<^verbatim>\<open>setTimeout\<close> between steps in \<^verbatim>\<open>RecipeCard\<close>\<close>
  | Logged string             \<comment> \<open>\<^verbatim>\<open>console.error\<close>, with its fixed text\<close>
  | SetStepImage nat string   \<comment> \<open>\<^verbatim>\<open>setStepImages(prev => ({...prev, [i]: url}))\<close>\<close>

type_synonym history = "event list"

text \<open>An asynchronous operation: it reads and extends the history, and resolves
  (\<open>Inr\<close>) or rejects (\<open>Inl\<close>).\<close>

type_synonym 'a async = "history \<Rightarrow> (js_error + 'a) \<times> history"

section \<open>Strings\<close>

text \<open>A string is the list of its code units. \<^verbatim>\<open>s.startsWith(p)\<close>, \<^verbatim>\<open>s.endsWith(p)\<close>
  and \<^verbatim>\<open>s.includes(p)\<close>:\<close>

definition startsWith :: "string \<Rightarrow> string \<Rightarrow> bool" where
  "startsWith s p = (take (length p) s = p)"

definition endsWith :: "string \<Rightarrow> string \<Rightarrow> bool" where
  "endsWith s p = (length p \<le> length s \<and> drop (length s - length p) s = p)"

fun js_includes :: "string \<Rightarrow> string \<Rightarrow> bool" where
  "js_includes [] p = (p = [])"
| "js_includes (c # cs) p = (startsWith (c # cs) p \<or> js_includes cs p)"

section \<open>The retry wrapper\<close>

text \<open>
  \<^verbatim>\<open>error?.message && error.message.includes(p)\<close>: its truthiness, or the
  \<^verbatim>\<open>TypeError\<close> it throws.
\<close>

fun message_includes :: "message_value \<Rightarrow> string \<Rightarrow> js_error + bool" where
  "message_includes Falsy p = Inr False"
| "message_includes (Str m) p = Inr (m \<noteq> [] \<and> js_includes m p)"
| "message_includes (Other None) p = Inl not_a_function"
| "message_includes (Other (Some f)) p = f p"

text \<open>
  \<^verbatim>\<open>isRateLimit\<close> of \<^verbatim>\<open>withRetry\<close>: status or code 429, or a message that contains
  \<^verbatim>\<open>'429'\<close> or \<^verbatim>\<open>'quota'\<close>. The four disjuncts are evaluated from left to right and
  the first truthy one ends the evaluation; a disjunct that throws ends it too.
\<close>

definition isRateLimit :: "js_error \<Rightarrow> js_error + bool" where
  "isRateLimit error =
     (if status error = Some 429 then Inr True
      else if code error = Some 429 then Inr True
      else (case message_includes (message error) ''429'' of
              Inl thrown \<Rightarrow> Inl thrown
            | Inr found \<Rightarrow> if found then Inr True else message_includes (message error) ''quota''))"

text \<open>
  How a call of \<^verbatim>\<open>withRetry\<close> ends: \<^verbatim>\<open>return await fn()\<close>, \<^verbatim>\<open>throw error\<close> in the
  catch block, an exception thrown by the catch block itself while it classifies the
  error, or the \<^verbatim>\<open>throw new Error("Max retries exceeded")\<close> after the loop.
\<close>

datatype 'a exit = Returned 'a | Rethrown js_error | Faulted js_error | Exhausted

fun settle :: "'a exit \<Rightarrow> js_error + 'a" where
  "settle (Returned v) = Inr v"
| "settle (Rethrown e) = Inl e"
| "settle (Faulted e) = Inl e"
| "settle Exhausted = Inl (Error ''Max retries exceeded'')"

text \<open>The \<^verbatim>\<open>for (let i = 0; i < retries; i++)\<close> loop of \<^verbatim>\<open>withRetry\<close>, from index \<open>i\<close>.\<close>

function withRetry_loop :: "'a async \<Rightarrow> nat \<Rightarrow> nat \<Rightarrow> nat \<Rightarrow> history \<Rightarrow> 'a exit \<times> history" where
  "withRetry_loop fn retries baseDelay i h =
     (if i < retries then
        (case fn h of
           (Inr v, h') \<Rightarrow> (Returned v, h')
         | (Inl error, h') \<Rightarrow>
             (case isRateLimit error of
                Inl thrown \<Rightarrow> (Faulted thrown, h')
              | Inr limited \<Rightarrow>
                  if limited \<and> int i < int retries - 1 then
                    (let waitTime = baseDelay * 2 ^ i
                     in withRetry_loop fn retries baseDelay (i + 1) (h' @ [Warned waitTime, Delayed waitTime]))
                  else (Rethrown error, h')))
      else (Exhausted, h))"
  by pat_completeness auto
termination
  by (relation "measure (\<lambda>(fn, retries, baseDelay, i, h). retries - i)") auto

declare withRetry_loop.simps [simp del]

definition withRetry :: "'a async \<Rightarrow> nat \<Rightarrow> nat \<Rightarrow> 'a async" where
  "withRetry fn retries baseDelay h =
     (case withRetry_loop fn retries baseDelay 0 h of (x, h') \<Rightarrow> (settle x, h'))"

text \<open>
  An operation whose outcome depends only on how often it has been invoked: the \<open>k\<close>-th
  invocation (counted from 0) records itself and yields \<open>outcome k\<close>.
\<close>

definition attempts :: "history \<Rightarrow> nat" where
  "attempts h = length (filter (\<lambda>e. e = Attempt) h)"

definition scripted :: "(nat \<Rightarrow> js_error + 'a) \<Rightarrow> 'a async" where
  "scripted outcome h = (outcome (attempts h), h @ [Attempt])"

section \<open>The regular expressions of the markup\<close>

text \<open>
  The three patterns of the program, \<^verbatim>\<open>/(<<[^>]+>>)/g\<close>, \<^verbatim>\<open>/<<([^|]+)\|[^>]+>>/g\<close> and
  \<^verbatim>\<open>/<<([^|]+)\|([^>]+)>>/g\<close>, are sequences of two kinds of item: a literal character,
  and a greedy repetition \<^verbatim>\<open>[^c]+\<close> of a negated one-character class. (A negated class
  also matches line terminators, and no flag of these patterns changes that.)
\<close>

datatype re_item = Ch char | PlusNot char

text \<open>
  Matching a pattern at the start of a string, by backtracking as the engine does: a
  repetition first takes the longest run it can and gives characters back one at a time,
  down to one, until the rest of the pattern matches. The result is the text taken by
  each repetition, in order, and the unmatched rest of the string.
\<close>

fun rematch :: "re_item list \<Rightarrow> string \<Rightarrow> (string list \<times> string) option"
  and backtrack :: "re_item list \<Rightarrow> string \<Rightarrow> nat \<Rightarrow> (string list \<times> string) option" where
  "rematch [] s = Some ([], s)"
| "rematch (Ch c # r) s = (case s of [] \<Rightarrow> None | x # xs \<Rightarrow> if x = c then rematch r xs else None)"
| "rematch (PlusNot c # r) s = backtrack r s (length (takeWhile (\<lambda>x. x \<noteq> c) s))"
| "backtrack r s 0 = None"
| "backtrack r s (Suc k) =
     (case rematch r (drop (Suc k) s) of
        Some (caps, rest) \<Rightarrow> Some (take (Suc k) s # caps, rest)
      | None \<Rightarrow> backtrack r s k)"

text \<open>The text a match consumed, and the text of the \<open>k\<close>-th repetition (counted from 1;
  empty when there is none, as \<^verbatim>\<open>$k\<close> is for a group that took no part).\<close>

definition matched :: "string \<Rightarrow> string \<Rightarrow> string" where
  "matched s rest = take (length s - length rest) s"

definition group :: "string list \<Rightarrow> nat \<Rightarrow> string" where
  "group caps k = (if 1 \<le> k \<and> k \<le> length caps then caps ! (k - 1) else [])"

text \<open>
  \<^verbatim>\<open>s.replace(re, template)\<close> for a global pattern: the matches are found from left to
  right, each search starting where the previous match ended; the text between matches
  is kept. A match that consumes nothing is followed by a step of one character (none of
  the patterns of this program can match the empty string). \<open>sub\<close> expands the template
  from the repetitions' texts.
\<close>

fun replace_global :: "re_item list \<Rightarrow> (string list \<Rightarrow> string) \<Rightarrow> string \<Rightarrow> string" where
  "replace_global re sub s =
     (case rematch re s of
        Some (caps, rest) \<Rightarrow>
          if length rest < length s then sub caps @ replace_global re sub rest
          else (case s of [] \<Rightarrow> sub caps | c # cs \<Rightarrow> sub caps @ c # replace_global re sub cs)
      | None \<Rightarrow> (case s of [] \<Rightarrow> [] | c # cs \<Rightarrow> c # replace_global re sub cs))"

declare replace_global.simps [simp del]

text \<open>
  \<^verbatim>\<open>s.split(re)\<close> for a pattern that is one capturing group: the loop of the language's
  split algorithm, with \<open>lit\<close> the text since the last split point. A match at the
  current position pushes \<open>lit\<close> and the group's text; a match that ends at the last
  split point counts as no match.
\<close>

fun split_loop :: "re_item list \<Rightarrow> string \<Rightarrow> string \<Rightarrow> string list" where
  "split_loop re lit s =
     (case s of
        [] \<Rightarrow> [lit]
      | c # cs \<Rightarrow>
          (case rematch re s of
             None \<Rightarrow> split_loop re (lit @ [c]) cs
           | Some (caps, rest) \<Rightarrow>
               if length rest < length s then lit # matched s rest # split_loop re [] rest
               else if lit = [] then split_loop re [c] cs
               else lit # [] # split_loop re [c] cs))"

declare split_loop.simps [simp del]

definition js_split :: "re_item list \<Rightarrow> string \<Rightarrow> string list" where
  "js_split re s =
     (if s = [] then (case rematch re [] of None \<Rightarrow> [[]] | Some m \<Rightarrow> [])
      else split_loop re [] s)"

text \<open>\<^verbatim>\<open>s.split(d)\<close> for a one-character separator: \<open>cur\<close> is the field being read.\<close>

fun split_on :: "char \<Rightarrow> string \<Rightarrow> string \<Rightarrow> string list" where
  "split_on d cur [] = [cur]"
| "split_on d cur (c # cs) = (if c = d then cur # split_on d [] cs else split_on d (cur @ [c]) cs)"

text \<open>\<^verbatim>\<open>s.slice(start, end)\<close>, where a negative index counts from the end.\<close>

definition slice :: "string \<Rightarrow> int \<Rightarrow> int \<Rightarrow> string" where
  "slice s start end =
     (let len = int (length s);
          from = (if start < 0 then max (len + start) 0 else min start len);
          to = (if end < 0 then max (len + end) 0 else min end len)
      in take (nat (to - from)) (drop (nat from) s))"

section \<open>The instruction markup\<close>

definition span_re :: "re_item list" where
  "span_re = [Ch CHR ''<'', Ch CHR ''<'', PlusNot CHR ''>'', Ch CHR ''>'', Ch CHR ''>'']"

definition clean_re :: "re_item list" where
  "clean_re = [Ch CHR ''<'', Ch CHR ''<'', PlusNot CHR ''|'', Ch CHR ''|'',
               PlusNot CHR ''>'', Ch CHR ''>'', Ch CHR ''>'']"

definition speech_re :: "re_item list" where
  "speech_re = [Ch CHR ''<'', Ch CHR ''<'', PlusNot CHR ''|'', Ch CHR ''|'',
                PlusNot CHR ''>'', Ch CHR ''>'', Ch CHR ''>'']"

text \<open>
  What \<^verbatim>\<open>RichInstruction\<close> renders for one part: \<^verbatim>\<open><span>{part}</span>\<close> or an
  \<^verbatim>\<open>IngredientTooltip\<close> with a name and a quantity.
\<close>

datatype token = Plain string | Ingredient string string

text \<open>
  The body of \<^verbatim>\<open>parts.map\<close>. \<^verbatim>\<open>const [name, quantity] = content.split('|')\<close> takes the
  first two fields; a missing field is \<^verbatim>\<open>undefined\<close>, which is falsy like the empty
  string.
\<close>

definition render_part :: "string \<Rightarrow> token" where
  "render_part part =
     (if startsWith part ''<<'' \<and> endsWith part ''>>'' then
        (let content = slice part 2 (- 2)
         in case split_on CHR ''|'' [] content of
              name # quantity # more \<Rightarrow>
                if name \<noteq> [] \<and> quantity \<noteq> [] then Ingredient name quantity else Plain part
            | _ \<Rightarrow> Plain part)
      else Plain part)"

definition RichInstruction :: "string \<Rightarrow> token list" where
  "RichInstruction text = map render_part (js_split span_re text)"

text \<open>\<^verbatim>\<open>cleanText\<close> of \<^verbatim>\<open>generateStepVisual\<close>: the template is \<^verbatim>\<open>'$1'\<close>.\<close>

definition cleanText :: "string \<Rightarrow> string" where
  "cleanText text = replace_global clean_re (\<lambda>caps. group caps 1) text"

text \<open>\<^verbatim>\<open>spokenText\<close> of \<^verbatim>\<open>generateStepAudio\<close>: the template is \<^verbatim>\<open>'$2 of $1'\<close>.\<close>

definition spokenText :: "string \<Rightarrow> string" where
  "spokenText text = replace_global speech_re (\<lambda>caps. group caps 2 @ '' of '' @ group caps 1) text"

text \<open>The text a reader sees inline: a tooltip shows its name, the quantity is held back.\<close>

fun shown :: "token \<Rightarrow> string" where
  "shown (Plain s) = s"
| "shown (Ingredient name quantity) = name"

definition visibleText :: "token list \<Rightarrow> string" where
  "visibleText ts = concat (map shown ts)"

section \<open>Annotated texts\<close>

text \<open>
  An instruction as the specification describes it: literal text and annotations
  \<^verbatim>\<open><<name|quantity>>\<close> in some order. \<open>source\<close> is the text as it is written, \<open>named\<close>
  is the text with each annotation replaced by its name, and \<open>spoken\<close> is the text with
  each annotation replaced by \<^verbatim>\<open>quantity of name\<close>.
\<close>

datatype piece = Text string | Mark string string

fun source :: "piece list \<Rightarrow> string" where
  "source [] = []"
| "source (Text l # ps) = l @ source ps"
| "source (Mark name quantity # ps) = ''<<'' @ name @ ''|'' @ quantity @ ''>>'' @ source ps"

fun named :: "piece list \<Rightarrow> string" where
  "named [] = []"
| "named (Text l # ps) = l @ named ps"
| "named (Mark name quantity # ps) = name @ named ps"

fun spoken :: "piece list \<Rightarrow> string" where
  "spoken [] = []"
| "spoken (Text l # ps) = l @ spoken ps"
| "spoken (Mark name quantity # ps) = quantity @ '' of '' @ name @ spoken ps"

text \<open>Literal text that cannot be taken for markup: it holds no \<^verbatim>\<open><<\<close> and does not end
  in \<^verbatim>\<open><\<close> (which would join the \<^verbatim>\<open><<\<close> of an annotation that follows).\<close>

fun plain_text :: "string \<Rightarrow> bool" where
  "plain_text [] = True"
| "plain_text [c] = (c \<noteq> CHR ''<'')"
| "plain_text (c # d # s) = (\<not> (c = CHR ''<'' \<and> d = CHR ''<'') \<and> plain_text (d # s))"

text \<open>The well-formedness the specification words: name and quantity are not empty and
  hold neither \<^verbatim>\<open>|\<close> nor \<^verbatim>\<open>>>\<close>.\<close>

definition worded_field :: "string \<Rightarrow> bool" where
  "worded_field s = (s \<noteq> [] \<and> CHR ''|'' \<notin> set s \<and> \<not> js_includes s ''>>'')"

text \<open>The well-formedness the patterns need: name and quantity are not empty and hold
  neither \<^verbatim>\<open>|\<close> nor any \<^verbatim>\<open>>\<close>.\<close>

definition field :: "string \<Rightarrow> bool" where
  "field s = (s \<noteq> [] \<and> CHR ''|'' \<notin> set s \<and> CHR ''>'' \<notin> set s)"

fun well_formed :: "piece list \<Rightarrow> bool" where
  "well_formed [] = True"
| "well_formed (Text l # ps) = (plain_text l \<and> well_formed ps)"
| "well_formed (Mark name quantity # ps) = (field name \<and> field quantity \<and> well_formed ps)"

text \<open>The first two \<^verbatim>\<open>|\<close>-separated fields of a span's content; the second is empty when
  the content has no \<^verbatim>\<open>|\<close>.\<close>

definition first_field :: "string \<Rightarrow> string" where
  "first_field s = takeWhile (\<lambda>c. c \<noteq> CHR ''|'') s"

definition second_field :: "string \<Rightarrow> string" where
  "second_field s = takeWhile (\<lambda>c. c \<noteq> CHR ''|'') (drop 1 (dropWhile (\<lambda>c. c \<noteq> CHR ''|'') s))"

text \<open>Text without any of the three characters of the markup.\<close>

definition bare :: "string \<Rightarrow> bool" where
  "bare s = (CHR ''<'' \<notin> set s \<and> CHR ''>'' \<notin> set s \<and> CHR ''|'' \<notin> set s)"

text \<open>
  Malformed markup: literal text and spans \<^verbatim>\<open><<name|quantity>>\<close> of which the name or the
  quantity is empty. A span with an empty name may hold anything but \<^verbatim>\<open><<\<close> in its
  quantity; the name of a span with an empty quantity is the text up to the \<^verbatim>\<open>|\<close> and
  holds no \<^verbatim>\<open>>\<close>.
\<close>

fun malformed :: "piece list \<Rightarrow> bool" where
  "malformed [] = True"
| "malformed (Text l # ps) = (plain_text l \<and> malformed ps)"
| "malformed (Mark name quantity # ps) =
     (((name = [] \<and> \<not> js_includes quantity ''<<'') \<or>
       (quantity = [] \<and> CHR ''|'' \<notin> set name \<and> CHR ''>'' \<notin> set name)) \<and>
      malformed ps)"

section \<open>The audio container\<close>

text \<open>
  Bytes and byte buffers. An \<^verbatim>\<open>ArrayBuffer\<close> with the \<^verbatim>\<open>DataView\<close> and \<^verbatim>\<open>Uint8Array\<close>
  over it is the list of its bytes; a write outside the buffer throws a \<^verbatim>\<open>RangeError\<close>.
\<close>

type_synonym byte = "8 word"

definition range_error :: js_error where
  "range_error = Error ''Offset is outside the bounds of the DataView''"

text \<open>Sequencing of steps that may throw.\<close>

fun and_then :: "js_error + 'a \<Rightarrow> ('a \<Rightarrow> js_error + 'b) \<Rightarrow> js_error + 'b" where
  "and_then (Inl e) f = Inl e"
| "and_then (Inr x) f = f x"

definition write_at :: "byte list \<Rightarrow> nat \<Rightarrow> byte list \<Rightarrow> js_error + byte list" where
  "write_at view offset bs =
     (if offset + length bs \<le> length view
      then Inr (take offset view @ bs @ drop (offset + length bs) view)
      else Inl range_error)"

text \<open>\<^verbatim>\<open>view.setUint8(offset, value)\<close>, and \<^verbatim>\<open>view.setUint16(offset, value, true)\<close> and
  \<^verbatim>\<open>view.setUint32(offset, value, true)\<close>: the value is reduced to the width and stored
  with the least significant byte first.\<close>

definition setUint8 :: "byte list \<Rightarrow> nat \<Rightarrow> nat \<Rightarrow> js_error + byte list" where
  "setUint8 view offset v = write_at view offset [of_nat v]"

definition setUint16 :: "byte list \<Rightarrow> nat \<Rightarrow> nat \<Rightarrow> js_error + byte list" where
  "setUint16 view offset v =
     (let w = (of_nat v :: 16 word)
      in write_at view offset [ucast w, ucast (drop_bit 8 w)])"

definition setUint32 :: "byte list \<Rightarrow> nat \<Rightarrow> nat \<Rightarrow> js_error + byte list" where
  "setUint32 view offset v =
     (let w = (of_nat v :: 32 word)
      in write_at view offset [ucast w, ucast (drop_bit 8 w), ucast (drop_bit 16 w), ucast (drop_bit 24 w)])"

text \<open>\<^verbatim>\<open>writeString\<close>: one \<^verbatim>\<open>setUint8\<close> per character, with its \<^verbatim>\<open>charCodeAt\<close>.\<close>

fun writeString :: "byte list \<Rightarrow> nat \<Rightarrow> string \<Rightarrow> js_error + byte list" where
  "writeString view offset [] = Inr view"
| "writeString view offset (c # cs) =
     and_then (setUint8 view offset (of_char c)) (\<lambda>view. writeString view (offset + 1) cs)"

text \<open>
  \<^verbatim>\<open>pcmToWav\<close>. The result is the content of the \<^verbatim>\<open>Blob\<close> built from the buffer.
  \<^verbatim>\<open>new Uint8Array(buffer, 44).set(pcmData)\<close> copies the samples to offset 44.
\<close>

definition pcmToWav :: "byte list \<Rightarrow> nat \<Rightarrow> js_error + byte list" where
  "pcmToWav pcmData sampleRate =
     (let numChannels = 1;
          bitsPerSample = 16;
          byteRate = (sampleRate * numChannels * bitsPerSample) div 8;
          blockAlign = (numChannels * bitsPerSample) div 8;
          dataSize = length pcmData;
          buffer = replicate (44 + dataSize) 0
      in and_then (writeString buffer 0 ''RIFF'') (\<lambda>view.
         and_then (setUint32 view 4 (36 + dataSize)) (\<lambda>view.
         and_then (writeString view 8 ''WAVE'') (\<lambda>view.
         and_then (writeString view 12 ''fmt '') (\<lambda>view.
         and_then (setUint32 view 16 16) (\<lambda>view.
         and_then (setUint16 view 20 1) (\<lambda>view.
         and_then (setUint16 view 22 numChannels) (\<lambda>view.
         and_then (setUint32 view 24 sampleRate) (\<lambda>view.
         and_then (setUint32 view 28 byteRate) (\<lambda>view.
         and_then (setUint16 view 32 blockAlign) (\<lambda>view.
         and_then (setUint16 view 34 bitsPerSample) (\<lambda>view.
         and_then (writeString view 36 ''data'') (\<lambda>view.
         and_then (setUint32 view 40 dataSize) (\<lambda>view.
         write_at view 44 pcmData))))))))))))))"

text \<open>Reading a little-endian field back, as a player of the file does.\<close>

definition getUint16 :: "byte list \<Rightarrow> nat \<Rightarrow> nat" where
  "getUint16 view offset = unat (view ! offset) + 256 * unat (view ! (offset + 1))"

definition getUint32 :: "byte list \<Rightarrow> nat \<Rightarrow> nat" where
  "getUint32 view offset =
     unat (view ! offset) + 256 * unat (view ! (offset + 1)) +
     65536 * unat (view ! (offset + 2)) + 16777216 * unat (view ! (offset + 3))"

text \<open>The 44 header bytes that the standard layout prescribes for mono 16-bit samples.\<close>

definition le16 :: "nat \<Rightarrow> byte list" where
  "le16 v = [of_nat v, of_nat (v div 256)]"

definition le32 :: "nat \<Rightarrow> byte list" where
  "le32 v = [of_nat v, of_nat (v div 256), of_nat (v div 65536), of_nat (v div 16777216)]"

definition wav_header :: "nat \<Rightarrow> nat \<Rightarrow> byte list" where
  "wav_header dataSize sampleRate =
     map (of_nat \<circ> of_char) ''RIFF'' @ le32 (36 + dataSize) @ map (of_nat \<circ> of_char) ''WAVE'' @
     map (of_nat \<circ> of_char) ''fmt '' @ le32 16 @ le16 1 @ le16 1 @
     le32 sampleRate @ le32 (sampleRate * 2) @ le16 2 @ le16 16 @
     map (of_nat \<circ> of_char) ''data'' @ le32 dataSize"

section \<open>The content generation client\<close>

subsection \<open>The endpoint\<close>

text \<open>
  What the service reads of a response: \<^verbatim>\<open>response.text\<close> (absent when the response has
  no text), and \<^verbatim>\<open>response.candidates?.[0]?.content?.parts || []\<close>, of each part only
  its \<^verbatim>\<open>inlineData\<close>.
\<close>

datatype inline = InlineData (mimeType: string) (data: string)

datatype part = Part (inlineData: "inline option")

datatype response = Response (response_text: "string option") (response_parts: "part list")

text \<open>
  The endpoint is outside the program: given what has happened so far, the model name and
  the contents, it answers with a response or raises. \<open>generateContent\<close> records the
  request.
\<close>

type_synonym endpoint = "history \<Rightarrow> string \<Rightarrow> string \<Rightarrow> js_error + response"

definition generateContent :: "endpoint \<Rightarrow> string \<Rightarrow> string \<Rightarrow> response async" where
  "generateContent api model contents h = (api h model contents, h @ [Request model contents])"

text \<open>An \<^verbatim>\<open>async\<close> arrow function that awaits one call and then computes without
  further effects; and \<^verbatim>\<open>try { return await body } catch (error) { handler }\<close>.\<close>

definition then_sync :: "'a async \<Rightarrow> ('a \<Rightarrow> js_error + 'b) \<Rightarrow> 'b async" where
  "then_sync m f h = (case m h of (Inl e, h') \<Rightarrow> (Inl e, h') | (Inr x, h') \<Rightarrow> (f x, h'))"

definition try_catch :: "'a async \<Rightarrow> (js_error \<Rightarrow> 'a async) \<Rightarrow> 'a async" where
  "try_catch body handler h =
     (case body h of (Inl e, h') \<Rightarrow> handler e h' | (Inr v, h') \<Rightarrow> (Inr v, h'))"

text \<open>Parsed JSON. \<^verbatim>\<open>JSON.parse\<close> belongs to the runtime and is a parameter of the
  model: it returns a value or throws.\<close>

datatype json =
    JNull | JBool bool | JNumber int | JString string
  | JArray "json list" | JObject "(string \<times> json) list"

type_synonym json_parser = "string \<Rightarrow> js_error + json"

definition nl :: string where
  "nl = [CHR 0x0A]"

definition dq :: string where
  "dq = [CHR 0x22]"

text \<open>\<^verbatim>\<open>xs.join(sep)\<close>.\<close>

fun join :: "string \<Rightarrow> string list \<Rightarrow> string" where
  "join sep [] = []"
| "join sep [x] = x"
| "join sep (x # y # ys) = x @ sep @ join sep (y # ys)"

subsection \<open>generateRecipe\<close>









subsection \<open>The best-effort operations\<close>

definition leftover_prompt :: "string list \<Rightarrow> string \<Rightarrow> string" where
  "leftover_prompt ingredients currentTitle =
     ''I just made '' @ dq @ currentTitle @ dq @ '' using these ingredients: '' @
       join '', '' ingredients @ ''.'' @ nl @
     ''  Suggest 3 distinct, creative, and simple recipes I could make with the potential leftovers or remaining ingredients from this list.'' @ nl @
     ''  Focus on minimizing food waste.''"

definition leftover_body :: "json_parser \<Rightarrow> response \<Rightarrow> js_error + json" where
  "leftover_body parse response =
     (case response_text response of
        None \<Rightarrow> Inr (JArray [])
      | Some t \<Rightarrow> if t = [] then Inr (JArray []) else parse t)"

definition generateLeftoverSuggestions ::
    "endpoint \<Rightarrow> json_parser \<Rightarrow> string list \<Rightarrow> string \<Rightarrow> json async" where
  "generateLeftoverSuggestions api parse ingredients currentTitle =
     (let model = ''gemini-2.5-flash'';
          prompt = leftover_prompt ingredients currentTitle
      in try_catch
           (withRetry (then_sync (generateContent api model prompt) (leftover_body parse)) 3 2000)
           (\<lambda>error h. (Inr (JArray []), h @ [Logged ''Failed to generate leftovers:''])))"

text \<open>The loop over the parts: the first inline payload, as a data URI, or \<^verbatim>\<open>null\<close>.\<close>

fun first_inline :: "part list \<Rightarrow> string option" where
  "first_inline [] = None"
| "first_inline (p # ps) =
     (case inlineData p of
        Some d \<Rightarrow> Some (''data:'' @ mimeType d @ '';base64,'' @ data d)
      | None \<Rightarrow> first_inline ps)"

definition visual_prompt :: "string \<Rightarrow> string \<Rightarrow> string" where
  "visual_prompt title description =
     ''A minimalistic, artistic, shape-based vector style illustration of '' @ title @ ''. '' @ nl @
     ''  Description: '' @ description @ ''. '' @ nl @
     ''  Style: Flat design, abstract food art, appetizing colors, creamy background. '' @ nl @
     ''  Not photorealistic. No text in image.''"

definition generateRecipeVisual :: "endpoint \<Rightarrow> string \<Rightarrow> string \<Rightarrow> (string option) async" where
  "generateRecipeVisual api title description =
     (let model = ''gemini-2.5-flash-image'';
          prompt = visual_prompt title description
      in try_catch
           (withRetry (then_sync (generateContent api model prompt) (\<lambda>response. Inr (first_inline (response_parts response)))) 3 2000)
           (\<lambda>error h. (Inr None, h @ [Logged ''Failed to generate image:''])))"

text \<open>
  \<^verbatim>\<open>generateStepVisual\<close>. \<open>contextStr\<close> and \<open>shortInstruction\<close> are the constants of that name
  in the source; \<open>step_prompt\<close> is the template around them.
\<close>

definition contextStr :: "string list \<Rightarrow> string" where
  "contextStr cleanPrevious =
     (if length cleanPrevious > 0
      then ''PREVIOUS STEPS CONTEXT (The dish state so far): '' @ join ''; '' cleanPrevious @ ''.''
      else ''Start of recipe.'')"

definition shortInstruction :: "string \<Rightarrow> string" where
  "shortInstruction cleanInstruction =
     (if length cleanInstruction > 150 then take 150 cleanInstruction @ ''...'' else cleanInstruction)"

definition step_prompt :: "string \<Rightarrow> string \<Rightarrow> string" where
  "step_prompt short context =
     ''Create a simple, flat vector art illustration for this cooking step.'' @ nl @
     ''    '' @ nl @
     ''    CURRENT ACTION: '' @ dq @ short @ dq @ nl @
     ''    '' @ nl @
     ''    '' @ context @ nl @
     ''    '' @ nl @
     ''    IMPORTANT VISUAL RULES:'' @ nl @
     ''    1. Depict the CURRENT ACTION.'' @ nl @
     ''    2. VISUAL CONTINUITY: You MUST include the state of the dish from the PREVIOUS STEPS CONTEXT. For example, if beef was added to a pan in a previous step, show the pan WITH beef in it for this step.'' @ nl @
     ''    3. Style: Minimalist, clean lines, pastel colors, instructional diagram style. '' @ nl @
     ''    4. NO TEXT in the image.''"

definition image_model :: string where
  "image_model = ''gemini-2.5-flash-image''"

definition generateStepVisual :: "endpoint \<Rightarrow> string \<Rightarrow> string list \<Rightarrow> (string option) async" where
  "generateStepVisual api instruction previousInstructions =
     (let model = image_model;
          cleanInstruction = cleanText instruction;
          cleanPrevious = map cleanText previousInstructions;
          prompt = step_prompt (shortInstruction cleanInstruction) (contextStr cleanPrevious)
      in try_catch
           (withRetry (then_sync (generateContent api model prompt) (\<lambda>response. Inr (first_inline (response_parts response)))) 3 2000)
           (\<lambda>error h. (Inr None, h @ [Logged ''Failed to generate step image:''])))"

text \<open>
  \<^verbatim>\<open>generateStepAudio\<close>. \<^verbatim>\<open>atob\<close> with the loop that copies the decoded characters into
  a \<^verbatim>\<open>Uint8Array\<close>, and \<^verbatim>\<open>URL.createObjectURL\<close>, belong to the runtime and are
  parameters.
\<close>

definition audio_body ::
    "(string \<Rightarrow> js_error + byte list) \<Rightarrow> (byte list \<Rightarrow> string) \<Rightarrow> response \<Rightarrow> js_error + string option" where
  "audio_body atob createObjectURL response =
     (let base64Audio =
            (case response_parts response of
               [] \<Rightarrow> None
             | p # ps \<Rightarrow> (case inlineData p of None \<Rightarrow> None | Some d \<Rightarrow> Some (data d)))
      in case base64Audio of
           None \<Rightarrow> Inr None
         | Some b \<Rightarrow>
             if b = [] then Inr None
             else and_then (atob b) (\<lambda>bytes.
                  and_then (pcmToWav bytes 24000) (\<lambda>wavBlob.
                  Inr (Some (createObjectURL wavBlob)))))"

definition generateStepAudio ::
    "endpoint \<Rightarrow> (string \<Rightarrow> js_error + byte list) \<Rightarrow> (byte list \<Rightarrow> string) \<Rightarrow> string \<Rightarrow>
     (string option) async" where
  "generateStepAudio api atob createObjectURL instruction =
     (let spoken = spokenText instruction
      in try_catch
           (withRetry (then_sync (generateContent api ''gemini-2.5-flash-preview-tts'' spoken)
                         (audio_body atob createObjectURL)) 3 2000)
           (\<lambda>error h. (Inr None, h @ [Logged ''Failed to generate audio:''])))"

section \<open>The background step-image loop\<close>

datatype StepType = PREP | COOK | TIMING

datatype RecipeStep = RecipeStep (instruction: string) (step_type: StepType) (insight: "string option")

text \<open>
  \<^verbatim>\<open>generateAllStepImages\<close> of \<^verbatim>\<open>RecipeCard\<close>, from index \<open>i\<close>. \<open>isMounted\<close> is the flag
  that the effect's cleanup clears; it can change only while the loop awaits, so it is read
  as a function of the history at each point the loop resumes. \<open>stepImages\<close> is the state
  value that the closure captured. \<open>visual\<close> is the imported \<^verbatim>\<open>generateStepVisual\<close>.
\<close>

function generateAllStepImages ::
    "(string \<Rightarrow> string list \<Rightarrow> (string option) async) \<Rightarrow> (history \<Rightarrow> bool) \<Rightarrow> (nat \<rightharpoonup> string) \<Rightarrow>
     RecipeStep list \<Rightarrow> nat \<Rightarrow> history \<Rightarrow> history" where
  "generateAllStepImages visual isMounted stepImages steps i h =
     (if i < length steps then
        if \<not> isMounted h then h
        else if (case stepImages i of None \<Rightarrow> False | Some u \<Rightarrow> u \<noteq> []) then
          generateAllStepImages visual isMounted stepImages steps (i + 1) h
        else
          (let previousInstructions = map instruction (take i steps);
               (r, h1) = visual (instruction (steps ! i)) previousInstructions h;
               h2 = (case r of
                       Inr (Some url) \<Rightarrow>
                         if isMounted h1 \<and> url \<noteq> [] then h1 @ [SetStepImage i url] else h1
                     | Inr None \<Rightarrow> h1
                     | Inl e \<Rightarrow> h1 @ [Logged ''Failed to generate background visual for step'']);
               h3 = (if isMounted h1 \<and> int i < int (length steps) - 1
                     then h2 @ [Paced 4000] else h2)
           in generateAllStepImages visual isMounted stepImages steps (i + 1) h3)
      else h)"
  by pat_completeness auto
termination
  by (relation "measure (\<lambda>(visual, isMounted, stepImages, steps, i, h). length steps - i)") auto

declare generateAllStepImages.simps [simp del]

text \<open>The requests and the pacing waits in a history, in order.\<close>

fun traffic :: "history \<Rightarrow> event list" where
  "traffic [] = []"
| "traffic (Request m c # h) = Request m c # traffic h"
| "traffic (Paced ms # h) = Paced ms # traffic h"
| "traffic (e # h) = traffic h"

fun requests :: "history \<Rightarrow> (string \<times> string) list" where
  "requests [] = []"
| "requests (Request m c # h) = (m, c) # requests h"
| "requests (e # h) = requests h"

text \<open>The prompt that \<^verbatim>\<open>generateStepVisual\<close> sends for step \<open>i\<close> of a recipe, and the
  indices that the loop does not skip.\<close>

definition prompt_of :: "RecipeStep list \<Rightarrow> nat \<Rightarrow> string" where
  "prompt_of steps i =
     step_prompt (shortInstruction (cleanText (instruction (steps ! i))))
       (contextStr (map (cleanText \<circ> instruction) (take i steps)))"

definition uncached :: "(nat \<rightharpoonup> string) \<Rightarrow> nat \<Rightarrow> nat list" where
  "uncached stepImages n =
     filter (\<lambda>i. case stepImages i of None \<Rightarrow> True | Some u \<Rightarrow> u = []) [0..<n]"

text \<open>What one iteration for step \<open>i\<close> that is not skipped adds to the traffic: \<open>k\<close> requests
  with the prompt of the step, and the pacing wait unless the step is the last.\<close>

definition iteration_traffic :: "RecipeStep list \<Rightarrow> nat \<Rightarrow> nat \<Rightarrow> event list" where
  "iteration_traffic steps k i =
     replicate k (Request image_model (prompt_of steps i)) @
     (if i + 1 < length steps then [Paced 4000] else [])"

text \<open>A recipe of two steps and an endpoint that always answers with one image, for the
  concrete runs below.\<close>

definition two_steps :: "RecipeStep list" where
  "two_steps =
     [RecipeStep ''Chop <<onion|1>>'' PREP None,
      RecipeStep ''Fry <<onion|1>> in <<butter|20g>>'' COOK None]"

definition image_api :: endpoint where
  "image_api h m c = Inr (Response None [Part (Some (InlineData ''image/png'' ''AAAA''))])"

section \<open>Properties of the retry wrapper\<close>

lemma isRateLimit_classifies:
  assumes "status e = Some 429 \<or> code e = Some 429 \<or> message e = Falsy \<or> message e = Str m"
  shows "\<not> isl (isRateLimit e)"
proof (cases "status e = Some 429 \<or> code e = Some 429")
  case True
  then show ?thesis by (auto simp: isRateLimit_def)
next
  case False
  with assms have "message e = Falsy \<or> message e = Str m" by blast
  then show ?thesis
  proof
    assume "message e = Falsy"
    with False show ?thesis by (simp add: isRateLimit_def)
  next
    assume "message e = Str m"
    with False show ?thesis by (simp add: isRateLimit_def)
  qed
qed

lemma isRateLimit_throws:
  "status e \<noteq> Some 429 \<Longrightarrow> code e \<noteq> Some 429 \<Longrightarrow> message e = Other None \<Longrightarrow>
   isRateLimit e = Inl not_a_function"
  by (simp add: isRateLimit_def)


lemma withRetry_loop_returns:
  "i < retries \<Longrightarrow> fn h = (Inr v, h') \<Longrightarrow> withRetry_loop fn retries baseDelay i h = (Returned v, h')"
  by (subst withRetry_loop.simps) simp

lemma withRetry_loop_rethrows:
  "i < retries \<Longrightarrow> fn h = (Inl e, h') \<Longrightarrow> isRateLimit e = Inr limited \<Longrightarrow>
   \<not> (limited \<and> Suc i < retries) \<Longrightarrow>
   withRetry_loop fn retries baseDelay i h = (Rethrown e, h')"
  by (subst withRetry_loop.simps) auto

lemma withRetry_loop_rethrows_unlimited:
  "i < retries \<Longrightarrow> fn h = (Inl e, h') \<Longrightarrow> isRateLimit e = Inr False \<Longrightarrow>
   withRetry_loop fn retries baseDelay i h = (Rethrown e, h')"
  by (subst withRetry_loop.simps) auto

lemma withRetry_loop_faults:
  "i < retries \<Longrightarrow> fn h = (Inl e, h') \<Longrightarrow> isRateLimit e = Inl thrown \<Longrightarrow>
   withRetry_loop fn retries baseDelay i h = (Faulted thrown, h')"
  by (subst withRetry_loop.simps) simp

lemma withRetry_loop_retries:
  "fn h = (Inl e, h') \<Longrightarrow> isRateLimit e = Inr True \<Longrightarrow> Suc i < retries \<Longrightarrow>
   withRetry_loop fn retries baseDelay i h =
   withRetry_loop fn retries baseDelay (Suc i) (h' @ [Warned (baseDelay * 2 ^ i), Delayed (baseDelay * 2 ^ i)])"
  by (subst withRetry_loop.simps) (auto simp: Let_def)

lemma withRetry_loop_last_call:
  "i < retries \<Longrightarrow>
   \<exists>h1. withRetry_loop fn retries baseDelay i h =
     (case fst (fn h1) of
        Inr v \<Rightarrow> Returned v
      | Inl e \<Rightarrow> (case isRateLimit e of Inl thrown \<Rightarrow> Faulted thrown | Inr limited \<Rightarrow> Rethrown e),
      snd (fn h1))"
proof (induction fn retries baseDelay i h rule: withRetry_loop.induct)
  case (1 fn retries baseDelay i h)
  obtain r h' where call: "fn h = (r, h')" by (cases "fn h")
  show ?case
  proof (cases r)
    case (Inr v)
    with call 1(2) have "withRetry_loop fn retries baseDelay i h = (Returned v, h')"
      by (simp add: withRetry_loop_returns)
    with call Inr show ?thesis by (intro exI [of _ h]) simp
  next
    case (Inl e)
    show ?thesis
    proof (cases "isRateLimit e")
      case thrown: (Inl t)
      with call Inl 1(2) have "withRetry_loop fn retries baseDelay i h = (Faulted t, h')"
        by (simp add: withRetry_loop_faults)
      with call Inl thrown show ?thesis by (intro exI [of _ h]) simp
    next
      case classified: (Inr limited)
      show ?thesis
      proof (cases "limited \<and> Suc i < retries")
        case False
        with call Inl classified 1(2) have "withRetry_loop fn retries baseDelay i h = (Rethrown e, h')"
          by (simp add: withRetry_loop_rethrows [where limited = limited])
        with call Inl classified show ?thesis by (intro exI [of _ h]) simp
      next
        case True
        with call Inl classified have step: "withRetry_loop fn retries baseDelay i h =
            withRetry_loop fn retries baseDelay (Suc i)
              (h' @ [Warned (baseDelay * 2 ^ i), Delayed (baseDelay * 2 ^ i)])"
          by (simp add: withRetry_loop_retries)
        from True have a: "limited \<and> int i < int retries - 1" by auto
        from True have b: "i + 1 < retries" by simp
        from 1(1) [OF 1(2) call [symmetric] Inl classified a refl b] step
        show ?thesis by simp
      qed
    qed
  qed
qed

text \<open>The runs of a wrapper with three attempts in which every attempt made fails.\<close>

lemma withRetry_one_failure:
  assumes "fn h = (Inl e1, h1)" "isRateLimit e1 \<noteq> Inr True"
  shows "withRetry fn 3 baseDelay h =
    (Inl (case isRateLimit e1 of Inl thrown \<Rightarrow> thrown | Inr limited \<Rightarrow> e1), h1)"
proof (cases "isRateLimit e1")
  case (Inl t)
  with assms(1) show ?thesis by (simp add: withRetry_def withRetry_loop_faults)
next
  case (Inr limited)
  with assms(2) have "isRateLimit e1 = Inr False" by auto
  with assms(1) show ?thesis by (simp add: withRetry_def withRetry_loop_rethrows_unlimited)
qed




text \<open>
  C10 (as amended). For every operation and every \<open>retries \<ge> 1\<close>, a call of \<open>withRetry\<close>
  never reaches the \<^verbatim>\<open>throw new Error("Max retries exceeded")\<close> after the loop: it ends
  with the outcome of one invocation of the operation, in the state that invocation left.
  It returns the value this invocation returned, or re-throws the error this invocation
  threw, unless classifying that error throws: then the exception of the classification
  leaves \<open>withRetry\<close> instead of the operation's error. The classification does not throw
  for a thrown value with status or code 429, nor for one whose message is absent, falsy
  or a string; it throws a \<^verbatim>\<open>TypeError\<close> for a thrown value without status or code 429
  whose message is truthy, not a string and without an \<^verbatim>\<open>includes\<close> method. So for an
  operation whose thrown values the classification accepts, \<open>withRetry\<close> returns a value
  produced by the operation or re-throws an error thrown by it.
\<close>

theorem withRetry_never_exhausted:
  assumes "1 \<le> retries"
  shows "fst (withRetry_loop fn retries baseDelay 0 h) \<noteq> Exhausted \<and>
         (\<exists>h1. snd (withRetry fn retries baseDelay h) = snd (fn h1) \<and>
               fst (withRetry fn retries baseDelay h) =
                 (case fst (fn h1) of
                    Inr v \<Rightarrow> Inr v
                  | Inl e \<Rightarrow> (case isRateLimit e of Inl thrown \<Rightarrow> Inl thrown | Inr limited \<Rightarrow> Inl e))) \<and>
         (status e = Some 429 \<or> code e = Some 429 \<or> message e = Falsy \<or> message e = Str m \<longrightarrow>
            \<not> isl (isRateLimit e)) \<and>
         (status e \<noteq> Some 429 \<and> code e \<noteq> Some 429 \<and> message e = Other None \<longrightarrow>
            isRateLimit e = Inl not_a_function) \<and>
         ((\<forall>h' e'. fst (fn h') = Inl e' \<longrightarrow> \<not> isl (isRateLimit e')) \<longrightarrow>
            (\<exists>h1. withRetry fn retries baseDelay h = fn h1))"
proof -
  from assms have "0 < retries" by simp
  from withRetry_loop_last_call [OF this, of fn baseDelay h]
  obtain h1 where eq: "withRetry_loop fn retries baseDelay 0 h =
     (case fst (fn h1) of
        Inr v \<Rightarrow> Returned v
      | Inl e \<Rightarrow> (case isRateLimit e of Inl thrown \<Rightarrow> Faulted thrown | Inr limited \<Rightarrow> Rethrown e),
      snd (fn h1))"
    by blast
  have a: "fst (withRetry_loop fn retries baseDelay 0 h) \<noteq> Exhausted"
    using eq by (simp split: sum.splits)
  have b: "snd (withRetry fn retries baseDelay h) = snd (fn h1)"
    using eq by (simp add: withRetry_def)
  have c: "fst (withRetry fn retries baseDelay h) =
      (case fst (fn h1) of
         Inr v \<Rightarrow> Inr v
       | Inl e \<Rightarrow> (case isRateLimit e of Inl thrown \<Rightarrow> Inl thrown | Inr limited \<Rightarrow> Inl e))"
    using eq by (simp add: withRetry_def split: sum.splits)
  have d: "status e = Some 429 \<or> code e = Some 429 \<or> message e = Falsy \<or> message e = Str m \<longrightarrow>
      \<not> isl (isRateLimit e)"
    using isRateLimit_classifies [of e m] by blast
  have d': "status e \<noteq> Some 429 \<and> code e \<noteq> Some 429 \<and> message e = Other None \<longrightarrow>
      isRateLimit e = Inl not_a_function"
    using isRateLimit_throws [of e] by blast
  have "withRetry fn retries baseDelay h = fn h1"
    if ok: "\<forall>h' e'. fst (fn h') = Inl e' \<longrightarrow> \<not> isl (isRateLimit e')"
  proof (cases "fst (fn h1)")
    case (Inr v)
    with b c show ?thesis by (simp add: prod_eq_iff)
  next
    case (Inl e')
    with ok have "\<not> isl (isRateLimit e')" by blast
    then obtain limited where "isRateLimit e' = Inr limited" by (cases "isRateLimit e'") simp_all
    with Inl b c show ?thesis by (simp add: prod_eq_iff)
  qed
  with a b c d d' show ?thesis by blast
qed



text \<open>With \<open>retries = 0\<close> the loop body never runs and the wrapper does reach the final
  throw: the bound in C10 is needed.\<close>

lemma withRetry_zero_retries:
  "withRetry fn 0 baseDelay h = (Inl (Error ''Max retries exceeded''), h)"
  by (simp add: withRetry_def withRetry_loop.simps)

text \<open>
  An operation that throws \<^verbatim>\<open>{message: 42}\<close>: \<open>withRetry\<close> neither returns a value of the
  operation nor re-throws its error; what leaves it is the \<^verbatim>\<open>TypeError\<close> of the catch
  block, after a single invocation.
\<close>

theorem withRetry_never_exhausted_counterexample:
  "withRetry (scripted (\<lambda>k. Inl (JsError None None (Other None)) :: js_error + nat)) 3 2000 [] =
     (Inl (Error ''error.message.includes is not a function''), [Attempt]) \<and>
   (\<forall>h1. fst (withRetry (scripted (\<lambda>k. Inl (JsError None None (Other None)) :: js_error + nat)) 3 2000 []) \<noteq>
      fst (scripted (\<lambda>k. Inl (JsError None None (Other None)) :: js_error + nat) h1))"
proof -
  have "scripted (\<lambda>k. Inl (JsError None None (Other None)) :: js_error + nat) [] =
      (Inl (JsError None None (Other None)), [Attempt])"
    by (simp add: scripted_def attempts_def)
  moreover have "isRateLimit (JsError None None (Other None)) = Inl not_a_function"
    by (simp add: isRateLimit_def)
  ultimately have "withRetry_loop (scripted (\<lambda>k. Inl (JsError None None (Other None)) :: js_error + nat)) 3 2000 0 [] =
      (Faulted not_a_function, [Attempt])"
    by (simp add: withRetry_loop_faults)
  then show ?thesis
    by (simp add: withRetry_def not_a_function_def scripted_def Error_def)
qed

theorem withRetry_never_exhausted_witness:
  "fst (withRetry_loop (scripted (\<lambda>k. Inl (JsError None (Some 429) Falsy) :: js_error + nat)) 3 2000 0 []) \<noteq> Exhausted \<and>
   (\<exists>h1. withRetry (scripted (\<lambda>k. Inl (JsError None (Some 429) Falsy) :: js_error + nat)) 3 2000 [] =
      scripted (\<lambda>k. Inl (JsError None (Some 429) Falsy)) h1) \<and>
   isRateLimit (JsError None None (Other None)) = Inl not_a_function"
proof -
  have "\<forall>h' e'. fst (scripted (\<lambda>k. Inl (JsError None (Some 429) Falsy) :: js_error + nat) h') = Inl e' \<longrightarrow>
      \<not> isl (isRateLimit e')"
    by (auto simp: scripted_def isRateLimit_def)
  with withRetry_never_exhausted [of 3 "scripted (\<lambda>k. Inl (JsError None (Some 429) Falsy) :: js_error + nat)" 2000 "[]"
      "JsError None None (Other None)"]
  show ?thesis by simp
qed

section \<open>Properties of the markup transforms\<close>

subsection \<open>What the patterns match\<close>

lemma takeWhile_holds: "j < length (takeWhile P xs) \<Longrightarrow> P (xs ! j)"
  by (metis nth_mem set_takeWhileD takeWhile_nth)

lemma backtrack_short:
  "k < length (takeWhile (\<lambda>x. x \<noteq> c) s) \<Longrightarrow> backtrack (Ch c # r) s k = None"
proof (induction k)
  case 0
  show ?case by simp
next
  case (Suc k)
  let ?n = "length (takeWhile (\<lambda>x. x \<noteq> c) s)"
  have le: "?n \<le> length s" by (rule length_takeWhile_le)
  with Suc.prems have lt: "Suc k < length s" by simp
  from Suc.prems have ne: "s ! Suc k \<noteq> c" by (rule takeWhile_holds)
  from lt have "drop (Suc k) s = s ! Suc k # drop (Suc (Suc k)) s"
    by (simp add: Cons_nth_drop_Suc)
  with ne have "rematch (Ch c # r) (drop (Suc k) s) = None" by simp
  moreover from Suc have "backtrack (Ch c # r) s k = None" by simp
  ultimately show ?case by simp
qed

lemma rematch_class_then_char:
  "rematch (PlusNot c # Ch c # r) s =
     (if takeWhile (\<lambda>x. x \<noteq> c) s = [] then None
      else case rematch (Ch c # r) (dropWhile (\<lambda>x. x \<noteq> c) s) of
             None \<Rightarrow> None
           | Some (caps, rest) \<Rightarrow> Some (takeWhile (\<lambda>x. x \<noteq> c) s # caps, rest))"
proof (cases "length (takeWhile (\<lambda>x. x \<noteq> c) s)")
  case 0
  then show ?thesis by simp
next
  case (Suc k)
  then have ne: "takeWhile (\<lambda>x. x \<noteq> c) s \<noteq> []" by auto
  have d: "drop (Suc k) s = dropWhile (\<lambda>x. x \<noteq> c) s"
    using dropWhile_eq_drop [of "\<lambda>x. x \<noteq> c" s] Suc by simp
  have t: "take (Suc k) s = takeWhile (\<lambda>x. x \<noteq> c) s"
    using takeWhile_eq_take [of "\<lambda>x. x \<noteq> c" s] Suc by simp
  have short: "backtrack (Ch c # r) s k = None"
    using Suc by (simp add: backtrack_short)
  have "rematch (PlusNot c # Ch c # r) s = backtrack (Ch c # r) s (Suc k)"
    by (simp only: rematch.simps Suc)
  also have "\<dots> = (case rematch (Ch c # r) (dropWhile (\<lambda>x. x \<noteq> c) s) of
             None \<Rightarrow> None
           | Some (caps, rest) \<Rightarrow> Some (takeWhile (\<lambda>x. x \<noteq> c) s # caps, rest))"
    unfolding backtrack.simps d t short ..
  finally show ?thesis using ne by simp
qed

lemma takeWhile_upto: "c \<notin> set xs \<Longrightarrow> takeWhile (\<lambda>x. x \<noteq> c) (xs @ c # ys) = xs"
  by (induction xs) auto

lemma dropWhile_upto: "c \<notin> set xs \<Longrightarrow> dropWhile (\<lambda>x. x \<noteq> c) (xs @ c # ys) = c # ys"
  by (induction xs) auto

lemma rematch_two_chars:
  "rematch [Ch a, Ch b] s = Some (caps, rest) \<longleftrightarrow> s = a # b # rest \<and> caps = []"
  by (cases s; cases "tl s") auto

lemma span_re_match:
  assumes "body \<noteq> []" "CHR ''>'' \<notin> set body"
  shows "rematch span_re (''<<'' @ body @ ''>>'' @ rest) = Some ([body], rest)"
proof -
  have "rematch (PlusNot CHR ''>'' # Ch CHR ''>'' # [Ch CHR ''>'']) (body @ ''>>'' @ rest) = Some ([body], rest)"
    unfolding rematch_class_then_char using assms
    by (simp add: takeWhile_upto dropWhile_upto)
  then show ?thesis by (simp add: span_re_def del: rematch.simps(3))
qed

lemma span_re_matchD:
  assumes "rematch span_re s = Some (caps, rest)"
  shows "\<exists>body. body \<noteq> [] \<and> CHR ''>'' \<notin> set body \<and> s = ''<<'' @ body @ ''>>'' @ rest \<and> caps = [body]"
proof -
  obtain a b t where s: "s = a # b # t"
    using assms unfolding span_re_def by (cases s; cases "tl s") (auto split: if_splits)
  with assms have ab: "a = CHR ''<''" "b = CHR ''<''"
    unfolding span_re_def by (auto split: if_splits)
  let ?body = "takeWhile (\<lambda>x. x \<noteq> CHR ''>'') t"
  let ?r = "dropWhile (\<lambda>x. x \<noteq> CHR ''>'') t"
  from assms s ab have "rematch (PlusNot CHR ''>'' # Ch CHR ''>'' # [Ch CHR ''>'']) t = Some (caps, rest)"
    by (simp add: span_re_def del: rematch.simps(3))
  then obtain caps' where m: "?body \<noteq> []" "rematch (Ch CHR ''>'' # [Ch CHR ''>'']) ?r = Some (caps', rest)"
      "caps = ?body # caps'"
    unfolding rematch_class_then_char by (auto split: if_splits option.splits)
  from m(2) have r: "?r = ''>>'' @ rest" and c: "caps' = []"
    by (simp_all only: rematch_two_chars append_Cons append_Nil)
  have "t = ?body @ ?r" by simp
  with r have "t = ?body @ ''>>'' @ rest" by simp
  moreover have "CHR ''>'' \<notin> set ?body" by (auto dest: set_takeWhileD)
  ultimately show ?thesis using s ab m c by (intro exI [of _ ?body]) simp
qed

lemma rematch_needs_open:
  "\<not> startsWith s ''<<'' \<Longrightarrow> rematch (Ch CHR ''<'' # Ch CHR ''<'' # r) s = None"
  by (cases s; cases "tl s") (auto simp: startsWith_def)

lemma clean_re_match:
  assumes "n \<noteq> []" "CHR ''|'' \<notin> set n" "q \<noteq> []" "CHR ''>'' \<notin> set q"
  shows "rematch clean_re (''<<'' @ n @ ''|'' @ q @ ''>>'' @ rest) = Some ([n, q], rest)"
proof -
  have "rematch (PlusNot CHR ''>'' # Ch CHR ''>'' # [Ch CHR ''>'']) (q @ ''>>'' @ rest) = Some ([q], rest)"
    unfolding rematch_class_then_char using assms
    by (simp add: takeWhile_upto dropWhile_upto)
  then have "rematch (PlusNot CHR ''|'' # Ch CHR ''|'' # [PlusNot CHR ''>'', Ch CHR ''>'', Ch CHR ''>''])
      (n @ ''|'' @ q @ ''>>'' @ rest) = Some ([n, q], rest)"
    unfolding rematch_class_then_char [of "CHR ''|''"] using assms
    by (simp add: takeWhile_upto dropWhile_upto del: rematch.simps(3))
  then show ?thesis by (simp add: clean_re_def del: rematch.simps(3))
qed

lemma clean_re_matchD:
  assumes "rematch clean_re s = Some (caps, rest)"
  shows "\<exists>n q. n \<noteq> [] \<and> CHR ''|'' \<notin> set n \<and> q \<noteq> [] \<and> CHR ''>'' \<notin> set q \<and>
           s = ''<<'' @ n @ ''|'' @ q @ ''>>'' @ rest \<and> caps = [n, q]"
proof -
  obtain a b t where s: "s = a # b # t"
    using assms unfolding clean_re_def by (cases s; cases "tl s") (auto split: if_splits)
  with assms have ab: "a = CHR ''<''" "b = CHR ''<''"
    unfolding clean_re_def by (auto split: if_splits)
  let ?n = "takeWhile (\<lambda>x. x \<noteq> CHR ''|'') t"
  let ?t1 = "dropWhile (\<lambda>x. x \<noteq> CHR ''|'') t"
  from assms s ab have "rematch (PlusNot CHR ''|'' # Ch CHR ''|'' # [PlusNot CHR ''>'', Ch CHR ''>'', Ch CHR ''>''])
      t = Some (caps, rest)"
    by (simp add: clean_re_def del: rematch.simps(3))
  then obtain caps1 where m1: "?n \<noteq> []"
      "rematch (Ch CHR ''|'' # [PlusNot CHR ''>'', Ch CHR ''>'', Ch CHR ''>'']) ?t1 = Some (caps1, rest)"
      "caps = ?n # caps1"
    unfolding rematch_class_then_char [of "CHR ''|''"] by (auto split: if_splits option.splits)
  from m1(2) obtain t2 where t1: "?t1 = CHR ''|'' # t2"
      and m2: "rematch (PlusNot CHR ''>'' # Ch CHR ''>'' # [Ch CHR ''>'']) t2 = Some (caps1, rest)"
    by (cases ?t1) (auto simp del: rematch.simps(3) split: if_splits)
  let ?q = "takeWhile (\<lambda>x. x \<noteq> CHR ''>'') t2"
  let ?t3 = "dropWhile (\<lambda>x. x \<noteq> CHR ''>'') t2"
  from m2 obtain caps2 where m3: "?q \<noteq> []"
      "rematch (Ch CHR ''>'' # [Ch CHR ''>'']) ?t3 = Some (caps2, rest)" "caps1 = ?q # caps2"
    unfolding rematch_class_then_char [of "CHR ''>''"] by (auto split: if_splits option.splits)
  from m3(2) have t3: "?t3 = ''>>'' @ rest" and c: "caps2 = []"
    by (simp_all only: rematch_two_chars append_Cons append_Nil)
  have "t = ?n @ ?t1" by simp
  also have "?t1 = ''|'' @ ?q @ ?t3" using t1 by simp
  finally have "t = ?n @ ''|'' @ ?q @ ''>>'' @ rest" using t3 by simp
  moreover have "CHR ''|'' \<notin> set ?n" "CHR ''>'' \<notin> set ?q" by (auto dest: set_takeWhileD)
  ultimately show ?thesis using s ab m1 m3 c
    by (intro exI [of _ ?n] exI [of _ ?q]) simp
qed

lemma speech_re_eq: "speech_re = clean_re"
  by (simp add: speech_re_def clean_re_def)

subsection \<open>Walking a text\<close>

text \<open>One step of the two walks.\<close>

lemma replace_global_nil: "replace_global (Ch c # r) sub [] = []"
  by (simp add: replace_global.simps)

lemma replace_global_skip:
  "rematch re (c # cs) = None \<Longrightarrow> replace_global re sub (c # cs) = c # replace_global re sub cs"
  by (simp add: replace_global.simps [of re sub "c # cs"])

lemma replace_global_match:
  "rematch re s = Some (caps, rest) \<Longrightarrow> length rest < length s \<Longrightarrow>
   replace_global re sub s = sub caps @ replace_global re sub rest"
  by (simp add: replace_global.simps [of re sub s])

lemma split_loop_nil: "split_loop re lit [] = [lit]"
  by (simp add: split_loop.simps)

lemma split_loop_skip:
  "rematch re (c # cs) = None \<Longrightarrow> split_loop re lit (c # cs) = split_loop re (lit @ [c]) cs"
  by (simp add: split_loop.simps [of re lit "c # cs"])

lemma split_loop_match:
  "rematch re s = Some (caps, rest) \<Longrightarrow> length rest < length s \<Longrightarrow>
   split_loop re lit s = lit # matched s rest # split_loop re [] rest"
proof (cases s)
  case Nil
  assume "length rest < length s"
  with Nil show ?thesis by simp
next
  case (Cons c cs)
  assume "rematch re s = Some (caps, rest)" "length rest < length s"
  then show ?thesis
    unfolding Cons by (subst split_loop.simps) simp
qed

lemma js_split_span: "js_split span_re s = split_loop span_re [] s"
  by (simp add: js_split_def split_loop_nil span_re_def)

text \<open>Plain text is walked through unchanged.\<close>

lemma plain_text_head:
  "plain_text (c # l) \<Longrightarrow> \<not> startsWith (c # l @ s) ''<<'' \<and> plain_text l"
  by (cases l) (auto simp: startsWith_def)

lemma plain_text_not_open: "plain_text l \<Longrightarrow> \<not> startsWith l ''<<''"
  by (cases l rule: plain_text.cases) (auto simp: startsWith_def)

lemma plain_text_append: "plain_text a \<Longrightarrow> plain_text b \<Longrightarrow> plain_text (a @ b)"
proof (induction a rule: plain_text.induct)
  case 1
  then show ?case by simp
next
  case (2 c)
  then show ?case by (cases b) auto
next
  case (3 c d s)
  then show ?case by simp
qed

lemma replace_global_plain:
  "plain_text l \<Longrightarrow>
   replace_global (Ch CHR ''<'' # Ch CHR ''<'' # r) sub (l @ s) =
   l @ replace_global (Ch CHR ''<'' # Ch CHR ''<'' # r) sub s"
proof (induction l)
  case Nil
  show ?case by simp
next
  case (Cons c l)
  from plain_text_head [OF Cons.prems, of s]
  have no: "\<not> startsWith (c # l @ s) ''<<''" and pl: "plain_text l" by simp_all
  from no have "rematch (Ch CHR ''<'' # Ch CHR ''<'' # r) (c # l @ s) = None"
    by (rule rematch_needs_open)
  then show ?case using Cons.IH [OF pl] by (simp add: replace_global_skip)
qed

lemma split_loop_plain:
  "plain_text l \<Longrightarrow>
   split_loop (Ch CHR ''<'' # Ch CHR ''<'' # r) lit (l @ s) =
   split_loop (Ch CHR ''<'' # Ch CHR ''<'' # r) (lit @ l) s"
proof (induction l arbitrary: lit)
  case Nil
  show ?case by simp
next
  case (Cons c l)
  from plain_text_head [OF Cons.prems, of s]
  have no: "\<not> startsWith (c # l @ s) ''<<''" and pl: "plain_text l" by simp_all
  from no have "rematch (Ch CHR ''<'' # Ch CHR ''<'' # r) (c # l @ s) = None"
    by (rule rematch_needs_open)
  then show ?case using Cons.IH [OF pl, of "lit @ [c]"] by (simp add: split_loop_skip)
qed

lemma matched_prefix: "matched (a @ rest) rest = a"
  by (simp add: matched_def)

lemma split_on_no_sep: "d \<notin> set s \<Longrightarrow> split_on d cur s = [cur @ s]"
  by (induction s arbitrary: cur) auto

lemma split_on_first:
  "d \<notin> set n \<Longrightarrow> split_on d cur (n @ d # r) = (cur @ n) # split_on d [] r"
  by (induction n arbitrary: cur) auto

lemma slice_span: "slice (''<<'' @ body @ ''>>'') 2 (- 2) = body"
  by (simp add: slice_def Let_def)

lemma span_delimited:
  "startsWith (''<<'' @ body @ ''>>'') ''<<'' \<and> endsWith (''<<'' @ body @ ''>>'') ''>>''"
  by (simp add: startsWith_def endsWith_def)

lemma render_part_plain: "\<not> startsWith p ''<<'' \<Longrightarrow> render_part p = Plain p"
  by (simp add: render_part_def)

lemma render_part_span:
  "render_part (''<<'' @ body @ ''>>'') =
     (case split_on CHR ''|'' [] body of
        name # quantity # more \<Rightarrow>
          if name \<noteq> [] \<and> quantity \<noteq> [] then Ingredient name quantity
          else Plain (''<<'' @ body @ ''>>'')
      | _ \<Rightarrow> Plain (''<<'' @ body @ ''>>''))"
  unfolding render_part_def slice_span Let_def using span_delimited [of body] by simp

lemma render_part_mark:
  assumes "field n" "field q"
  shows "render_part (''<<'' @ n @ ''|'' @ q @ ''>>'') = Ingredient n q"
proof -
  have "split_on CHR ''|'' [] (n @ ''|'' @ q) = [n, q]"
    using assms by (simp add: field_def split_on_first split_on_no_sep)
  then show ?thesis
    using assms render_part_span [of "n @ ''|'' @ q"] by (simp add: field_def)
qed

lemma span_re_mark:
  assumes "field n" "field q"
  shows "rematch span_re (''<<'' @ n @ ''|'' @ q @ ''>>'' @ rest) = Some ([n @ ''|'' @ q], rest)"
  using assms span_re_match [of "n @ ''|'' @ q" rest] by (simp add: field_def)

lemma cleanText_source: "well_formed ps \<Longrightarrow> cleanText (source ps) = named ps"
proof (induction ps rule: well_formed.induct)
  case 1
  show ?case by (simp add: cleanText_def clean_re_def replace_global_nil)
next
  case (2 l ps)
  then show ?case
    by (simp add: cleanText_def clean_re_def replace_global_plain)
next
  case (3 n q ps)
  then have m: "rematch clean_re (''<<'' @ n @ ''|'' @ q @ ''>>'' @ source ps) = Some ([n, q], source ps)"
    using clean_re_match [of n q "source ps"] by (simp add: field_def)
  have "cleanText (''<<'' @ n @ ''|'' @ q @ ''>>'' @ source ps) = group [n, q] 1 @ cleanText (source ps)"
    unfolding cleanText_def by (rule replace_global_match [OF m]) simp
  with 3 show ?case by (simp add: group_def)
qed

lemma spokenText_source: "well_formed ps \<Longrightarrow> spokenText (source ps) = spoken ps"
proof (induction ps rule: well_formed.induct)
  case 1
  show ?case by (simp add: spokenText_def speech_re_def replace_global_nil)
next
  case (2 l ps)
  then show ?case
    by (simp add: spokenText_def speech_re_def replace_global_plain)
next
  case (3 n q ps)
  then have m: "rematch speech_re (''<<'' @ n @ ''|'' @ q @ ''>>'' @ source ps) = Some ([n, q], source ps)"
    using clean_re_match [of n q "source ps"] by (simp add: field_def speech_re_eq)
  have "spokenText (''<<'' @ n @ ''|'' @ q @ ''>>'' @ source ps) =
      (group [n, q] 2 @ '' of '' @ group [n, q] 1) @ spokenText (source ps)"
    unfolding spokenText_def by (rule replace_global_match [OF m]) simp
  with 3 show ?case by (simp add: group_def)
qed

lemma visible_split_source:
  "well_formed ps \<Longrightarrow> plain_text lit \<Longrightarrow>
   visibleText (map render_part (split_loop span_re lit (source ps))) = lit @ named ps"
proof (induction ps arbitrary: lit rule: well_formed.induct)
  case 1
  then show ?case
    by (simp add: split_loop_nil visibleText_def render_part_plain plain_text_not_open)
next
  case (2 l ps)
  from 2(2) have wf: "well_formed ps" and pl: "plain_text l" by simp_all
  have "split_loop span_re lit (l @ source ps) = split_loop span_re (lit @ l) (source ps)"
    unfolding span_re_def using pl by (rule split_loop_plain)
  with 2(1) [OF wf plain_text_append [OF 2(3) pl]] show ?case by simp
next
  case (3 n q ps)
  from 3(2) have wf: "well_formed ps" and f: "field n" "field q" by simp_all
  let ?span = "''<<'' @ n @ ''|'' @ q @ ''>>''"
  have m: "rematch span_re (?span @ source ps) = Some ([n @ ''|'' @ q], source ps)"
    using span_re_mark [OF f] by simp
  have "split_loop span_re lit (?span @ source ps) =
      lit # matched (?span @ source ps) (source ps) # split_loop span_re [] (source ps)"
    by (rule split_loop_match [OF m]) simp
  then have "split_loop span_re lit (?span @ source ps) = lit # ?span # split_loop span_re [] (source ps)"
    by (simp only: matched_prefix)
  moreover have "render_part lit = Plain lit"
    using 3(3) by (simp add: render_part_plain plain_text_not_open)
  moreover have "render_part ?span = Ingredient n q"
    using f by (rule render_part_mark)
  moreover have "visibleText (map render_part (split_loop span_re [] (source ps))) = named ps"
    using 3(1) [OF wf, of "[]"] by simp
  ultimately show ?case by (simp add: visibleText_def)
qed

text \<open>
  C1 (as amended). For a text made of literal pieces and annotations
  \<^verbatim>\<open><<name|quantity>>\<close>, where every name and quantity is non-empty and holds neither
  \<^verbatim>\<open>|\<close> nor any \<^verbatim>\<open>>\<close>, and every literal piece holds no \<^verbatim>\<open><<\<close> and does not end in
  \<^verbatim>\<open><\<close>: the visible text of what \<open>RichInstruction\<close> renders is the text with each
  annotation replaced by its name; \<open>cleanText\<close> yields that same string; and \<open>spokenText\<close>
  yields the text with each annotation replaced by \<^verbatim>\<open>quantity of name\<close>.
\<close>

theorem markup_round_trip:
  assumes "well_formed ps"
  shows "visibleText (RichInstruction (source ps)) = named ps \<and>
         cleanText (source ps) = named ps \<and>
         spokenText (source ps) = spoken ps"
  using assms visible_split_source [OF assms, of "[]"]
  by (simp add: RichInstruction_def js_split_span cleanText_source spokenText_source)

theorem markup_round_trip_witness:
  "visibleText (RichInstruction ''Whisk the <<eggs|2>> and <<vanilla|1 tsp>> together.'') =
     ''Whisk the eggs and vanilla together.'' \<and>
   cleanText ''Whisk the <<eggs|2>> and <<vanilla|1 tsp>> together.'' =
     ''Whisk the eggs and vanilla together.'' \<and>
   spokenText ''Whisk the <<eggs|2>> and <<vanilla|1 tsp>> together.'' =
     ''Whisk the 2 of eggs and 1 tsp of vanilla together.''"
  using markup_round_trip [of "[Text ''Whisk the '', Mark ''eggs'' ''2'', Text '' and '',
     Mark ''vanilla'' ''1 tsp'', Text '' together.'']"]
  by (simp add: field_def)

text \<open>
  The specification only forbids \<^verbatim>\<open>>>\<close> inside a name or quantity. A single \<^verbatim>\<open>>\<close> in
  the quantity already stops \<^verbatim>\<open>[^>]+\<close>, so \<open>cleanText\<close> and \<open>spokenText\<close> leave the
  annotation as it is; a single \<^verbatim>\<open>>\<close> in the name does the same to the pattern of
  \<open>RichInstruction\<close>. The literal text matters as well: a \<^verbatim>\<open><\<close> directly before an
  annotation becomes part of its name, and a stray \<^verbatim>\<open><<\<close> before an annotation is paired
  with the annotation's \<^verbatim>\<open>>>\<close>.
\<close>

theorem markup_round_trip_counterexample:
  "worded_field ''a'' \<and> worded_field ''b>c'' \<and>
   source [Mark ''a'' ''b>c''] = ''<<a|b>c>>'' \<and>
   named [Mark ''a'' ''b>c''] = ''a'' \<and>
   cleanText ''<<a|b>c>>'' = ''<<a|b>c>>'' \<and>
   spokenText ''<<a|b>c>>'' = ''<<a|b>c>>'' \<and>
   worded_field ''a>b'' \<and> worded_field ''c'' \<and>
   source [Text ''x'', Mark ''a>b'' ''c''] = ''x<<a>b|c>>'' \<and>
   named [Text ''x'', Mark ''a>b'' ''c''] = ''xa>b'' \<and>
   visibleText (RichInstruction ''x<<a>b|c>>'') = ''x<<a>b|c>>'' \<and>
   source [Text ''x<'', Mark ''a'' ''b''] = ''x<<<a|b>>'' \<and>
   spoken [Text ''x<'', Mark ''a'' ''b''] = ''x<b of a'' \<and>
   spokenText ''x<<<a|b>>'' = ''xb of <a'' \<and>
   source [Text ''<<x '', Mark ''a'' ''b''] = ''<<x <<a|b>>'' \<and>
   named [Text ''<<x '', Mark ''a'' ''b''] = ''<<x a'' \<and>
   cleanText ''<<x <<a|b>>'' = ''x <<a''"
  by code_simp

lemma split_on_fields:
  "split_on d cur s =
     (cur @ takeWhile (\<lambda>c. c \<noteq> d) s) #
     (case dropWhile (\<lambda>c. c \<noteq> d) s of [] \<Rightarrow> [] | x # r \<Rightarrow> split_on d [] r)"
  by (induction s arbitrary: cur) auto

lemma render_part_fields:
  "render_part (''<<'' @ body @ ''>>'') =
     (if first_field body \<noteq> [] \<and> second_field body \<noteq> []
      then Ingredient (first_field body) (second_field body)
      else Plain (''<<'' @ body @ ''>>''))"
proof (cases "dropWhile (\<lambda>c. c \<noteq> CHR ''|'') body")
  case Nil
  have "split_on CHR ''|'' [] body = [first_field body]"
    by (subst split_on_fields) (simp only: Nil list.case first_field_def append_Nil)
  moreover have "second_field body = []"
    by (simp only: second_field_def Nil drop_Nil takeWhile.simps)
  ultimately show ?thesis using render_part_span [of body] by simp
next
  case (Cons x r)
  have sf: "second_field body = takeWhile (\<lambda>c. c \<noteq> CHR ''|'') r"
    by (simp add: second_field_def Cons)
  obtain more where "split_on CHR ''|'' [] r = second_field body # more"
    using split_on_fields [of "CHR ''|''" "[]" r] sf by simp
  moreover have "split_on CHR ''|'' [] body = first_field body # split_on CHR ''|'' [] r"
    by (subst split_on_fields) (simp only: Cons list.case first_field_def append_Nil)
  ultimately have "split_on CHR ''|'' [] body = first_field body # second_field body # more"
    by simp
  then show ?thesis using render_part_span [of body] by simp
qed

lemma split_loop_odd:
  "odd i \<Longrightarrow> i < length (split_loop span_re lit s) \<Longrightarrow>
   \<exists>body. body \<noteq> [] \<and> CHR ''>'' \<notin> set body \<and> split_loop span_re lit s ! i = ''<<'' @ body @ ''>>''"
proof (induction s arbitrary: lit i rule: length_induct)
  case (1 s)
  show ?case
  proof (cases s)
    case Nil
    with 1(2,3) show ?thesis by (auto simp: split_loop_nil)
  next
    case (Cons c cs)
    show ?thesis
    proof (cases "rematch span_re s")
      case None
      then have "split_loop span_re lit s = split_loop span_re (lit @ [c]) cs"
        unfolding Cons by (rule split_loop_skip)
      with 1 Cons show ?thesis by simp
    next
      case (Some m)
      obtain caps rest where m: "m = (caps, rest)" by (cases m)
      from span_re_matchD [OF Some [unfolded m]]
      obtain body where b: "body \<noteq> []" "CHR ''>'' \<notin> set body"
          "s = ''<<'' @ body @ ''>>'' @ rest"
        by blast
      then have shorter: "length rest < length s" by simp
      have "matched s rest = ''<<'' @ body @ ''>>''"
        using matched_prefix [of "''<<'' @ body @ ''>>''" rest] b(3) by simp
      with split_loop_match [OF Some [unfolded m] shorter, of lit]
      have eq: "split_loop span_re lit s = lit # (''<<'' @ body @ ''>>'') # split_loop span_re [] rest"
        by simp
      from 1(2) obtain j where "i = Suc j" "even j" by (cases i) auto
      show ?thesis
      proof (cases j)
        case 0
        with \<open>i = Suc j\<close> eq b show ?thesis by auto
      next
        case (Suc k)
        with \<open>even j\<close> have "odd k" by simp
        moreover from 1(3) eq \<open>i = Suc j\<close> Suc have "k < length (split_loop span_re [] rest)" by simp
        ultimately obtain body' where "body' \<noteq> []" "CHR ''>'' \<notin> set body'"
            "split_loop span_re [] rest ! k = ''<<'' @ body' @ ''>>''"
          using 1(1) shorter by blast
        with eq \<open>i = Suc j\<close> Suc show ?thesis by auto
      qed
    qed
  qed
qed

text \<open>
  C4 (as amended). The parts that \<open>RichInstruction\<close> gets from the split at odd positions
  are the matched spans \<^verbatim>\<open><<body>>\<close> (\<open>body\<close> non-empty, without \<^verbatim>\<open>>\<close>). What is rendered
  for such a span is decided by the first two \<^verbatim>\<open>|\<close>-separated fields of its body alone:
  when the body has no \<^verbatim>\<open>|\<close>, or the first field is empty, or the second field is empty,
  the span is rendered unchanged as plain text; otherwise, also when the body holds more
  than one \<^verbatim>\<open>|\<close>, it is rendered as an annotation of the first two fields and any further
  field is dropped. The transform is a total function.
\<close>

theorem rich_instruction_spans:
  assumes "i < length (RichInstruction text)" "odd i"
  shows "\<exists>body. body \<noteq> [] \<and> CHR ''>'' \<notin> set body \<and>
           js_split span_re text ! i = ''<<'' @ body @ ''>>'' \<and>
           RichInstruction text ! i =
             (if first_field body \<noteq> [] \<and> second_field body \<noteq> []
              then Ingredient (first_field body) (second_field body)
              else Plain (''<<'' @ body @ ''>>''))"
proof -
  from assms(1) have len: "i < length (split_loop span_re [] text)"
    by (simp add: RichInstruction_def js_split_span)
  from split_loop_odd [OF assms(2) len]
  obtain body where b: "body \<noteq> []" "CHR ''>'' \<notin> set body"
      "split_loop span_re [] text ! i = ''<<'' @ body @ ''>>''"
    by blast
  have "RichInstruction text ! i = render_part (''<<'' @ body @ ''>>'')"
    using len b(3) by (simp add: RichInstruction_def js_split_span)
  with b render_part_fields [of body] show ?thesis
    by (intro exI [of _ body]) (simp add: js_split_span)
qed

theorem rich_instruction_spans_witness:
  "\<exists>body. body \<noteq> [] \<and> CHR ''>'' \<notin> set body \<and>
     js_split span_re ''Add <<butter|50g|soft>> and <<salt>>.'' ! 3 = ''<<'' @ body @ ''>>'' \<and>
     RichInstruction ''Add <<butter|50g|soft>> and <<salt>>.'' ! 3 =
       (if first_field body \<noteq> [] \<and> second_field body \<noteq> []
        then Ingredient (first_field body) (second_field body)
        else Plain (''<<'' @ body @ ''>>''))"
proof -
  have "3 < length (RichInstruction ''Add <<butter|50g|soft>> and <<salt>>.'')"
    by code_simp
  then show ?thesis
    using rich_instruction_spans [of 3 "''Add <<butter|50g|soft>> and <<salt>>.''"] by simp
qed

text \<open>
  A span with two separators splits into three fields; it is rendered as an annotation,
  not as plain text.
\<close>

theorem rich_instruction_spans_counterexample:
  "split_on CHR ''|'' [] ''a|b|c'' = [''a'', ''b'', ''c''] \<and>
   RichInstruction ''<<a|b|c>>'' = [Plain [], Ingredient ''a'' ''b'', Plain []]"
  by code_simp

text \<open>Without a closing delimiter nothing matches.\<close>

lemma js_includes_append: "js_includes (a @ p @ b) p"
proof (induction a)
  case Nil
  have sw: "startsWith (p @ b) p" by (simp add: startsWith_def)
  show ?case
  proof (cases "p @ b")
    case Nil
    then show ?thesis by simp
  next
    case (Cons x xs)
    with sw show ?thesis by simp
  qed
next
  case (Cons c a)
  then show ?case by simp
qed

lemma js_includes_tail: "\<not> js_includes (c # cs) p \<Longrightarrow> \<not> js_includes cs p"
  by simp

lemma endsWith_includes: "endsWith s p \<Longrightarrow> js_includes s p"
proof -
  assume "endsWith s p"
  then have "s = take (length s - length p) s @ p @ []"
    by (simp add: endsWith_def) (metis append_take_drop_id)
  then show ?thesis using js_includes_append [of "take (length s - length p) s" p "[]"] by simp
qed

lemma span_re_needs_close: "\<not> js_includes s ''>>'' \<Longrightarrow> rematch span_re s = None"
proof (rule ccontr)
  assume no: "\<not> js_includes s ''>>''" and "rematch span_re s \<noteq> None"
  then obtain caps rest where "rematch span_re s = Some (caps, rest)" by auto
  from span_re_matchD [OF this] obtain body where "s = (''<<'' @ body) @ ''>>'' @ rest" by auto
  with js_includes_append [of "''<<'' @ body" "''>>''" rest] no show False by simp
qed

lemma clean_re_needs_close: "\<not> js_includes s ''>>'' \<Longrightarrow> rematch clean_re s = None"
proof (rule ccontr)
  assume no: "\<not> js_includes s ''>>''" and "rematch clean_re s \<noteq> None"
  then obtain caps rest where "rematch clean_re s = Some (caps, rest)" by auto
  from clean_re_matchD [OF this] obtain n q where "s = (''<<'' @ n @ ''|'' @ q) @ ''>>'' @ rest" by auto
  with js_includes_append [of "''<<'' @ n @ ''|'' @ q" "''>>''" rest] no show False by simp
qed

lemma replace_global_no_match:
  "\<forall>k. rematch re (drop k s) = None \<Longrightarrow> replace_global re sub s = s"
proof (induction s)
  case Nil
  then have "rematch re [] = None" by simp
  then show ?case by (simp add: replace_global.simps [of re sub "[]"])
next
  case (Cons c s)
  from Cons.prems have "rematch re (drop 0 (c # s)) = None" by blast
  then have here: "rematch re (c # s) = None" by simp
  have "\<forall>k. rematch re (drop k s) = None"
  proof
    fix k from Cons.prems have "rematch re (drop (Suc k) (c # s)) = None" by blast
    then show "rematch re (drop k s) = None" by simp
  qed
  with Cons.IH here show ?case by (simp add: replace_global_skip)
qed

lemma split_loop_no_match:
  "\<forall>k. rematch re (drop k s) = None \<Longrightarrow> split_loop re lit s = [lit @ s]"
proof (induction s arbitrary: lit)
  case Nil
  show ?case by (simp add: split_loop_nil)
next
  case (Cons c s)
  from Cons.prems have "rematch re (drop 0 (c # s)) = None" by blast
  then have here: "rematch re (c # s) = None" by simp
  have "\<forall>k. rematch re (drop k s) = None"
  proof
    fix k from Cons.prems have "rematch re (drop (Suc k) (c # s)) = None" by blast
    then show "rematch re (drop k s) = None" by simp
  qed
  with Cons.IH [of "lit @ [c]"] here show ?case by (simp add: split_loop_skip)
qed

lemma no_close_drop: "\<not> js_includes s p \<Longrightarrow> \<not> js_includes (drop k s) p"
proof (induction s arbitrary: k)
  case Nil
  then show ?case by simp
next
  case (Cons c s)
  then show ?case by (cases k) auto
qed

lemma unterminated_inert:
  assumes "\<not> js_includes text ''>>''"
  shows "cleanText text = text" "spokenText text = text" "RichInstruction text = [Plain text]"
proof -
  have c: "\<forall>k. rematch clean_re (drop k text) = None"
    using assms by (simp add: clean_re_needs_close no_close_drop)
  have s: "\<forall>k. rematch span_re (drop k text) = None"
    using assms by (simp add: span_re_needs_close no_close_drop)
  show "cleanText text = text"
    unfolding cleanText_def using c by (rule replace_global_no_match)
  show "spokenText text = text"
    unfolding spokenText_def speech_re_eq using c by (rule replace_global_no_match)
  have "\<not> endsWith text ''>>''"
    using assms endsWith_includes by blast
  then have "render_part text = Plain text"
    by (simp add: render_part_def)
  with split_loop_no_match [OF s, of "[]"] show "RichInstruction text = [Plain text]"
    by (simp add: RichInstruction_def js_split_span)
qed

lemma no_open_plain: "CHR ''<'' \<notin> set x \<Longrightarrow> plain_text x"
  by (induction x rule: plain_text.induct) auto

lemma plain_text_after_open:
  "y \<noteq> [] \<Longrightarrow> hd y \<noteq> CHR ''<'' \<Longrightarrow> plain_text y \<Longrightarrow> plain_text (CHR ''<'' # y)"
  by (cases y) auto

lemma clean_re_empty_field:
  assumes "n = [] \<or> q = []" "CHR ''|'' \<notin> set n" "CHR ''>'' \<notin> set q"
  shows "rematch clean_re (''<<'' @ n @ ''|'' @ q @ ''>>'' @ post) = None"
proof -
  have inner: "q = [] \<Longrightarrow>
      rematch (PlusNot CHR ''>'' # Ch CHR ''>'' # [Ch CHR ''>'']) (q @ ''>>'' @ post) = None"
    unfolding rematch_class_then_char by simp
  have "rematch (PlusNot CHR ''|'' # Ch CHR ''|'' # [PlusNot CHR ''>'', Ch CHR ''>'', Ch CHR ''>''])
      (n @ ''|'' @ q @ ''>>'' @ post) = None"
  proof (cases "n = []")
    case True
    then show ?thesis unfolding rematch_class_then_char [of "CHR ''|''"] by simp
  next
    case False
    with assms(1) have "q = []" by simp
    from inner [OF this] assms(2) False show ?thesis
      unfolding rematch_class_then_char [of "CHR ''|''"]
      by (simp add: takeWhile_upto dropWhile_upto del: rematch.simps(3))
  qed
  then show ?thesis by (simp add: clean_re_def del: rematch.simps(3))
qed

lemma empty_field_rest_plain:
  assumes "bare n" "bare q" "plain_text post"
  shows "plain_text (''<'' @ n @ ''|'' @ q @ ''>>'' @ post)"
proof -
  let ?y = "n @ ''|'' @ q @ ''>>''"
  have "CHR ''<'' \<notin> set ?y" using assms by (simp add: bare_def)
  then have "plain_text ?y" by (rule no_open_plain)
  from this assms(3) have p: "plain_text (?y @ post)" by (rule plain_text_append)
  have "hd (?y @ post) \<noteq> CHR ''<''"
    using assms(1) by (cases n) (auto simp: bare_def)
  with p have "plain_text (CHR ''<'' # (?y @ post))"
    by (intro plain_text_after_open) simp_all
  then show ?thesis by simp
qed

lemma replace_global_empty_field:
  assumes "plain_text pre" "plain_text post" "bare n" "bare q" "n = [] \<or> q = []"
  shows "replace_global clean_re sub (pre @ ''<<'' @ n @ ''|'' @ q @ ''>>'' @ post) =
         pre @ ''<<'' @ n @ ''|'' @ q @ ''>>'' @ post"
proof -
  let ?r = "''<'' @ n @ ''|'' @ q @ ''>>'' @ post"
  have none: "rematch clean_re (CHR ''<'' # ?r) = None"
    using clean_re_empty_field [of n q post] assms by (simp add: bare_def)
  have "plain_text ?r" using assms by (intro empty_field_rest_plain)
  then have "replace_global clean_re sub (?r @ []) = ?r @ replace_global clean_re sub []"
    unfolding clean_re_def by (rule replace_global_plain)
  then have r: "replace_global clean_re sub ?r = ?r"
    by (simp add: clean_re_def replace_global_nil)
  have "replace_global clean_re sub (pre @ CHR ''<'' # ?r) = pre @ replace_global clean_re sub (CHR ''<'' # ?r)"
    unfolding clean_re_def using assms(1) by (rule replace_global_plain)
  also have "replace_global clean_re sub (CHR ''<'' # ?r) = CHR ''<'' # ?r"
    using none r by (simp add: replace_global_skip)
  finally show ?thesis by simp
qed

lemma split_loop_empty_field:
  assumes "plain_text pre" "plain_text post" "bare n" "bare q"
  shows "split_loop span_re [] (pre @ ''<<'' @ n @ ''|'' @ q @ ''>>'' @ post) =
         [pre, ''<<'' @ n @ ''|'' @ q @ ''>>'', post]"
proof -
  let ?span = "''<<'' @ n @ ''|'' @ q @ ''>>''"
  have m: "rematch span_re (?span @ post) = Some ([n @ ''|'' @ q], post)"
    using span_re_match [of "n @ ''|'' @ q" post] assms by (simp add: bare_def)
  have "split_loop span_re [] (pre @ ?span @ post) = split_loop span_re ([] @ pre) (?span @ post)"
    unfolding span_re_def using assms(1) by (rule split_loop_plain)
  also have "\<dots> = pre # matched (?span @ post) post # split_loop span_re [] post"
    using split_loop_match [OF m, of pre] by simp
  also have "matched (?span @ post) post = ?span"
    by (rule matched_prefix)
  also have "split_loop span_re [] (post @ []) = split_loop span_re ([] @ post) []"
    unfolding span_re_def using assms(2) by (rule split_loop_plain)
  then have "split_loop span_re [] post = [post]"
    by (simp add: split_loop_nil)
  finally show ?thesis by simp
qed

lemma fields_of_bare: "bare n \<Longrightarrow> bare q \<Longrightarrow>
  first_field (n @ ''|'' @ q) = n \<and> second_field (n @ ''|'' @ q) = q"
  by (auto simp: bare_def first_field_def second_field_def takeWhile_upto dropWhile_upto)

lemma empty_field_inert:
  assumes "plain_text pre" "plain_text post" "bare n" "bare q" "n = [] \<or> q = []"
  shows "cleanText (pre @ ''<<'' @ n @ ''|'' @ q @ ''>>'' @ post) = pre @ ''<<'' @ n @ ''|'' @ q @ ''>>'' @ post"
    "spokenText (pre @ ''<<'' @ n @ ''|'' @ q @ ''>>'' @ post) = pre @ ''<<'' @ n @ ''|'' @ q @ ''>>'' @ post"
    "RichInstruction (pre @ ''<<'' @ n @ ''|'' @ q @ ''>>'' @ post) =
       [Plain pre, Plain (''<<'' @ n @ ''|'' @ q @ ''>>''), Plain post]"
proof -
  show "cleanText (pre @ ''<<'' @ n @ ''|'' @ q @ ''>>'' @ post) = pre @ ''<<'' @ n @ ''|'' @ q @ ''>>'' @ post"
    unfolding cleanText_def using assms by (rule replace_global_empty_field)
  show "spokenText (pre @ ''<<'' @ n @ ''|'' @ q @ ''>>'' @ post) = pre @ ''<<'' @ n @ ''|'' @ q @ ''>>'' @ post"
    unfolding spokenText_def speech_re_eq using assms by (rule replace_global_empty_field)
  have "render_part (''<<'' @ (n @ ''|'' @ q) @ ''>>'') = Plain (''<<'' @ (n @ ''|'' @ q) @ ''>>'')"
    unfolding render_part_fields using fields_of_bare [OF assms(3,4)] assms(5) by auto
  moreover have "render_part pre = Plain pre" "render_part post = Plain post"
    using assms(1,2) by (simp_all add: render_part_plain plain_text_not_open)
  ultimately show "RichInstruction (pre @ ''<<'' @ n @ ''|'' @ q @ ''>>'' @ post) =
       [Plain pre, Plain (''<<'' @ n @ ''|'' @ q @ ''>>''), Plain post]"
    using split_loop_empty_field [OF assms(1-4)]
    by (simp add: RichInstruction_def js_split_span)
qed

subsection \<open>Regions without a match\<close>

lemma replace_global_region:
  "\<forall>k<length a. rematch re (drop k (a @ s)) = None \<Longrightarrow>
   replace_global re sub (a @ s) = a @ replace_global re sub s"
proof (induction a)
  case Nil
  show ?case by simp
next
  case (Cons c a)
  from Cons.prems have "rematch re (drop 0 ((c # a) @ s)) = None" by blast
  then have here: "rematch re (c # a @ s) = None" by simp
  have "\<forall>k<length a. rematch re (drop k (a @ s)) = None"
  proof (intro allI impI)
    fix k assume "k < length a"
    then have "Suc k < length (c # a)" by simp
    with Cons.prems have "rematch re (drop (Suc k) ((c # a) @ s)) = None" by blast
    then show "rematch re (drop k (a @ s)) = None" by simp
  qed
  with Cons.IH here show ?case by (simp add: replace_global_skip)
qed

lemma dropWhile_to_sep: "dropWhile (\<lambda>x. x \<noteq> c) (q @ c # r) = dropWhile (\<lambda>x. x \<noteq> c) q @ c # r"
  by (induction q) auto

lemma clean_re_no_name: "rematch clean_re (''<<|'' @ rest) = None"
proof -
  have "rematch (PlusNot CHR ''|'' # Ch CHR ''|'' # [PlusNot CHR ''>'', Ch CHR ''>'', Ch CHR ''>''])
      (CHR ''|'' # rest) = None"
    unfolding rematch_class_then_char [of "CHR ''|''"] by simp
  then show ?thesis by (simp add: clean_re_def del: rematch.simps(3))
qed

lemma clean_re_no_quantity:
  assumes "CHR ''|'' \<notin> set x"
  shows "rematch clean_re (x @ ''|>>'' @ rest) = None"
proof (rule ccontr)
  assume "rematch clean_re (x @ ''|>>'' @ rest) \<noteq> None"
  then obtain caps r where "rematch clean_re (x @ ''|>>'' @ rest) = Some (caps, r)" by auto
  from clean_re_matchD [OF this]
  obtain n q where n: "CHR ''|'' \<notin> set n" and q: "q \<noteq> []" "CHR ''>'' \<notin> set q"
      and eq: "x @ ''|>>'' @ rest = ''<<'' @ n @ ''|'' @ q @ ''>>'' @ r"
    by blast
  from eq have eq': "x @ CHR ''|'' # (''>>'' @ rest) = (''<<'' @ n) @ CHR ''|'' # (q @ ''>>'' @ r)"
    by simp
  have "dropWhile (\<lambda>c. c \<noteq> CHR ''|'') (x @ CHR ''|'' # (''>>'' @ rest)) = CHR ''|'' # (''>>'' @ rest)"
    using assms by (rule dropWhile_upto)
  moreover have "dropWhile (\<lambda>c. c \<noteq> CHR ''|'') ((''<<'' @ n) @ CHR ''|'' # (q @ ''>>'' @ r)) =
      CHR ''|'' # (q @ ''>>'' @ r)"
    using n by (intro dropWhile_upto) simp
  ultimately have "''>>'' @ rest = q @ ''>>'' @ r" using eq' by simp
  with q show False by (cases q) auto
qed

lemma drop_append_le: "k \<le> length a \<Longrightarrow> drop k (a @ b) = drop k a @ b"
  by simp

lemma empty_quantity_region:
  assumes "CHR ''|'' \<notin> set n"
  shows "\<forall>k<length (''<<'' @ n @ ''|>>''). rematch clean_re (drop k ((''<<'' @ n @ ''|>>'') @ s)) = None"
proof (intro allI impI)
  fix k assume k: "k < length (''<<'' @ n @ ''|>>'')"
  let ?y = "''<<'' @ n"
  have split: "(''<<'' @ n @ ''|>>'') @ s = ?y @ ''|>>'' @ s" by simp
  show "rematch clean_re (drop k ((''<<'' @ n @ ''|>>'') @ s)) = None"
  proof (cases "k \<le> length ?y")
    case True
    then have a: "drop k (?y @ ''|>>'' @ s) = drop k ?y @ ''|>>'' @ s" by (rule drop_append_le)
    have b: "CHR ''|'' \<notin> set (drop k ?y)"
      using assms by (auto dest: in_set_dropD)
    show ?thesis unfolding split a using b by (rule clean_re_no_quantity)
  next
    case False
    then obtain j where j: "k = length ?y + Suc j" by (metis Suc_diff_Suc add.commute le_add_diff_inverse2 nat_le_linear not_le)
    with k have "j < 2" by simp
    from j have "drop k (?y @ ''|>>'' @ s) = drop (Suc j) (''|>>'' @ s)" by simp
    also have "\<dots> = drop j (''>>'' @ s)" by simp
    finally have d: "drop k (?y @ ''|>>'' @ s) = drop j (''>>'' @ s)" .
    from \<open>j < 2\<close> have "j = 0 \<or> j = 1" by auto
    then have "\<not> startsWith (drop j (''>>'' @ s)) ''<<''"
      by (auto simp: startsWith_def)
    then show ?thesis unfolding split d clean_re_def by (rule rematch_needs_open)
  qed
qed

subsection \<open>Plain text\<close>

lemma plain_text_Cons: "c \<noteq> CHR ''<'' \<Longrightarrow> plain_text y \<Longrightarrow> plain_text (c # y)"
  by (cases y) auto

lemma plain_text_drop: "plain_text x \<Longrightarrow> plain_text (drop j x)"
proof (induction x arbitrary: j rule: plain_text.induct)
  case 1
  show ?case by simp
next
  case (2 c)
  then show ?case by (cases j) auto
next
  case (3 c d s)
  then show ?case by (cases j) auto
qed

lemma no_open_closed: "\<not> js_includes q ''<<'' \<Longrightarrow> plain_text (q @ ''>>'')"
proof (induction q rule: plain_text.induct)
  case 1
  show ?case by simp
next
  case (2 c)
  show ?case by simp
next
  case (3 c d s)
  from 3(2) have "\<not> startsWith (c # d # s) ''<<''" and "\<not> js_includes (d # s) ''<<''" by simp_all
  with 3(1) show ?case by (simp add: startsWith_def)
qed

lemma empty_name_plain:
  assumes "\<not> js_includes q ''<<''"
  shows "plain_text (''<|'' @ q @ ''>>'')"
proof -
  have "plain_text (q @ ''>>'')" using assms by (rule no_open_closed)
  then have "plain_text (CHR ''|'' # (q @ ''>>''))" by (intro plain_text_Cons) simp_all
  then have "plain_text (CHR ''<'' # CHR ''|'' # (q @ ''>>''))"
    by (intro plain_text_after_open) simp_all
  then show ?thesis by simp
qed

lemma plain_text_opens: "plain_text (c # l) \<Longrightarrow> \<not> startsWith ((c # l) @ x) ''<<''"
  using plain_text_head [of c l x] by simp

subsection \<open>The two replacements on malformed markup\<close>

lemma replace_global_malformed:
  "malformed ps \<Longrightarrow> \<not> js_includes tail ''>>'' \<Longrightarrow>
   replace_global clean_re sub (source ps @ tail) = source ps @ tail"
proof (induction ps rule: malformed.induct)
  case 1
  then have "\<forall>k. rematch clean_re (drop k tail) = None"
    by (simp add: clean_re_needs_close no_close_drop)
  then show ?case by (simp add: replace_global_no_match)
next
  case (2 l ps)
  then have pl: "plain_text l" and IH: "replace_global clean_re sub (source ps @ tail) = source ps @ tail"
    by simp_all
  have "replace_global clean_re sub (l @ source ps @ tail) = l @ replace_global clean_re sub (source ps @ tail)"
    unfolding clean_re_def using pl by (rule replace_global_plain)
  with IH show ?case by simp
next
  case (3 n q ps)
  let ?R = "source ps @ tail"
  from 3 have IH: "replace_global clean_re sub ?R = ?R" by simp
  from 3(2) consider (name) "n = []" "\<not> js_includes q ''<<''"
    | (quantity) "q = []" "CHR ''|'' \<notin> set n"
    by auto
  then show ?case
  proof cases
    case name
    have none: "rematch clean_re (CHR ''<'' # (''<|'' @ q @ ''>>'') @ ?R) = None"
      using clean_re_no_name [of "q @ ''>>'' @ ?R"] by simp
    have "replace_global clean_re sub ((''<|'' @ q @ ''>>'') @ ?R) =
        (''<|'' @ q @ ''>>'') @ replace_global clean_re sub ?R"
      unfolding clean_re_def using empty_name_plain [OF name(2)] by (rule replace_global_plain)
    with none IH have "replace_global clean_re sub (CHR ''<'' # (''<|'' @ q @ ''>>'') @ ?R) =
        CHR ''<'' # (''<|'' @ q @ ''>>'') @ ?R"
      by (simp only: replace_global_skip)
    with name(1) show ?thesis by simp
  next
    case quantity
    from replace_global_region [where a = "''<<'' @ n @ ''|>>''" and s = ?R and sub = sub and re = clean_re,
        OF empty_quantity_region [OF quantity(2)]] IH
    show ?thesis using quantity(1) by simp
  qed
qed

subsection \<open>The split on malformed markup\<close>

lemma concat_split_loop: "concat (split_loop span_re lit s) = lit @ s"
proof (induction "length s" arbitrary: lit s rule: less_induct)
  case less
  show ?case
  proof (cases s)
    case Nil
    then show ?thesis by (simp add: split_loop_nil)
  next
    case (Cons c cs)
    show ?thesis
    proof (cases "rematch span_re s")
      case None
      with Cons have "split_loop span_re lit s = split_loop span_re (lit @ [c]) cs"
        by (simp add: split_loop_skip)
      moreover have "concat (split_loop span_re (lit @ [c]) cs) = (lit @ [c]) @ cs"
        using Cons by (intro less) simp
      ultimately show ?thesis using Cons by simp
    next
      case (Some m)
      obtain caps rest where m: "m = (caps, rest)" by (cases m)
      from span_re_matchD [of s caps rest] Some m
      obtain body where s: "s = (''<<'' @ body @ ''>>'') @ rest" by auto
      then have lt: "length rest < length s" by simp
      from Some m lt have "split_loop span_re lit s = lit # matched s rest # split_loop span_re [] rest"
        by (simp add: split_loop_match)
      moreover have "matched s rest = ''<<'' @ body @ ''>>''"
        unfolding s by (rule matched_prefix)
      moreover have "concat (split_loop span_re [] rest) = [] @ rest"
        using lt by (rule less)
      ultimately show ?thesis using s by simp
    qed
  qed
qed

lemma split_on_Cons: "\<exists>x xs. split_on d cur s = x # xs"
  by (subst split_on_fields) blast

lemma render_part_empty_name: "startsWith p ''<<|'' \<Longrightarrow> render_part p = Plain p"
proof -
  assume "startsWith p ''<<|''"
  then have "take (length ''<<|'') p = ''<<|''" by (simp only: startsWith_def)
  then have "p = ''<<|'' @ drop (length ''<<|'') p" by (metis append_take_drop_id)
  then obtain t where p: "p = CHR ''<'' # CHR ''<'' # CHR ''|'' # t" by simp
  show ?thesis
  proof (cases "endsWith p ''>>''")
    case False
    then show ?thesis by (simp add: render_part_def)
  next
    case True
    have "2 \<le> length t"
    proof (rule ccontr)
      assume "\<not> 2 \<le> length t"
      then have "t = [] \<or> (\<exists>x. t = [x])" by (cases t; cases "tl t") auto
      with True p show False by (auto simp: endsWith_def)
    qed
    then have "nat (int (length t) - 1) - Suc 0 = length t - 2" "0 < nat (int (length t) - 1)"
      by simp_all
    then have "slice p 2 (- 2) = CHR ''|'' # take (length t - 2) t"
      unfolding p by (simp add: slice_def Let_def take_Cons')
    moreover obtain x xs where "split_on CHR ''|'' [] (take (length t - 2) t) = x # xs"
      using split_on_Cons by blast
    ultimately show ?thesis by (simp add: render_part_def Let_def)
  qed
qed

lemma render_part_guard:
  "\<not> startsWith p ''<<'' \<or> startsWith p ''<<|'' \<Longrightarrow> render_part p = Plain p"
  using render_part_plain render_part_empty_name by blast

lemma split_loop_malformed:
  assumes "malformed ps" "\<not> js_includes tail ''>>''"
    and "lit = [] \<or> (\<forall>x. \<not> startsWith (lit @ x) ''<<'' \<or> startsWith (lit @ x) ''<<|'')"
  shows "list_all (\<lambda>p. render_part p = Plain p) (split_loop span_re lit (source ps @ tail))"
  using assms
proof (induction ps arbitrary: lit rule: malformed.induct)
  case 1
  have "\<forall>k. rematch span_re (drop k tail) = None"
    using 1(2) by (simp add: span_re_needs_close no_close_drop)
  then have parts: "split_loop span_re lit tail = [lit @ tail]"
    by (rule split_loop_no_match)
  have "render_part (lit @ tail) = Plain (lit @ tail)"
  proof (cases "lit = []")
    case True
    have "\<not> endsWith tail ''>>''" using 1(2) endsWith_includes by blast
    with True show ?thesis by (simp add: render_part_def)
  next
    case False
    with 1(3) show ?thesis by (intro render_part_guard) blast
  qed
  with parts show ?case by simp
next
  case (2 l ps)
  let ?R = "source ps @ tail"
  from 2(2) have pl: "plain_text l" and mf: "malformed ps" by simp_all
  have step: "split_loop span_re lit (l @ ?R) = split_loop span_re (lit @ l) ?R"
    unfolding span_re_def using pl by (rule split_loop_plain)
  have "lit @ l = [] \<or> (\<forall>x. \<not> startsWith ((lit @ l) @ x) ''<<'' \<or> startsWith ((lit @ l) @ x) ''<<|'')"
  proof (cases "lit = []")
    case False
    with 2(4) show ?thesis by simp
  next
    case True
    show ?thesis
    proof (cases l)
      case Nil
      with True show ?thesis by simp
    next
      case (Cons c l')
      with pl have "\<forall>x. \<not> startsWith ((c # l') @ x) ''<<''" by (simp only: plain_text_opens simp_thms)
      with True Cons show ?thesis by simp
    qed
  qed
  from 2(1) [OF mf 2(3) this] step show ?case by simp
next
  case (3 n q ps)
  let ?R = "source ps @ tail"
  from 3(2) have mf: "malformed ps" by simp
  have lit: "render_part lit = Plain lit"
  proof (cases "lit = []")
    case True
    then show ?thesis by (simp add: render_part_def startsWith_def)
  next
    case False
    with 3(4) have "\<not> startsWith (lit @ []) ''<<'' \<or> startsWith (lit @ []) ''<<|''" by blast
    then show ?thesis by (intro render_part_guard) simp
  qed
  from 3(2) consider (name) "n = []" "\<not> js_includes q ''<<''"
    | (quantity) "q = []" "CHR ''|'' \<notin> set n" "CHR ''>'' \<notin> set n"
    by auto
  then show ?case
  proof cases
    case quantity
    let ?span = "''<<'' @ (n @ ''|'') @ ''>>''"
    have m: "rematch span_re (?span @ ?R) = Some ([n @ ''|''], ?R)"
      using span_re_match [of "n @ ''|''" ?R] quantity by simp
    have "split_loop span_re lit (?span @ ?R) = lit # matched (?span @ ?R) ?R # split_loop span_re [] ?R"
      using m by (rule split_loop_match) simp
    then have parts: "split_loop span_re lit (?span @ ?R) = lit # ?span # split_loop span_re [] ?R"
      by (simp only: matched_prefix)
    have "second_field (n @ ''|'') = []"
      using quantity(2) by (simp add: second_field_def dropWhile_upto)
    then have span: "render_part ?span = Plain ?span"
      by (simp only: render_part_fields simp_thms if_False)
    have "list_all (\<lambda>p. render_part p = Plain p) (split_loop span_re [] ?R)"
      using mf 3(3) by (rule 3(1)) simp
    with parts lit span have "list_all (\<lambda>p. render_part p = Plain p) (split_loop span_re lit (?span @ ?R))"
      by simp
    with quantity(1) show ?thesis by simp
  next
    case name
    let ?w = "''<|'' @ q @ ''>>''"
    have src: "source (Mark n q # ps) @ tail = CHR ''<'' # ?w @ ?R"
      using name(1) by simp
    show ?thesis
    proof (cases "rematch span_re (CHR ''<'' # ?w @ ?R)")
      case None
      then have "split_loop span_re lit (CHR ''<'' # ?w @ ?R) = split_loop span_re (lit @ ''<'') (?w @ ?R)"
        by (simp add: split_loop_skip)
      also have "\<dots> = split_loop span_re ((lit @ ''<'') @ ?w) ?R"
        unfolding span_re_def using empty_name_plain [OF name(2)] by (rule split_loop_plain)
      finally have step: "split_loop span_re lit (CHR ''<'' # ?w @ ?R) =
          split_loop span_re (lit @ ''<<|'' @ q @ ''>>'') ?R"
        by simp
      have "\<forall>x. \<not> startsWith ((lit @ ''<<|'' @ q @ ''>>'') @ x) ''<<'' \<or>
          startsWith ((lit @ ''<<|'' @ q @ ''>>'') @ x) ''<<|''"
      proof (cases "lit = []")
        case True
        then show ?thesis by (simp add: startsWith_def)
      next
        case False
        with 3(4) show ?thesis by simp
      qed
      then have "list_all (\<lambda>p. render_part p = Plain p) (split_loop span_re (lit @ ''<<|'' @ q @ ''>>'') ?R)"
        using mf 3(3) by (intro 3(1)) simp_all
      with step src show ?thesis by simp
    next
      case (Some m)
      obtain caps rest where m: "m = (caps, rest)" by (cases m)
      from span_re_matchD [of "CHR ''<'' # ?w @ ?R" caps rest] Some m
      obtain body where body: "body \<noteq> []" "CHR ''>'' \<notin> set body"
          and eq: "CHR ''<'' # ?w @ ?R = ''<<'' @ body @ ''>>'' @ rest"
        by auto
      from eq have eq1: "CHR ''|'' # q @ ''>>'' @ ?R = body @ ''>>'' @ rest" by simp
      with body(1) obtain b where b: "body = CHR ''|'' # b" by (cases body) auto
      with eq1 have eq2: "q @ CHR ''>'' # (''>'' @ ?R) = b @ CHR ''>'' # (''>'' @ rest)" by simp
      let ?q2 = "dropWhile (\<lambda>x. x \<noteq> CHR ''>'') q"
      have "dropWhile (\<lambda>x. x \<noteq> CHR ''>'') (b @ CHR ''>'' # (''>'' @ rest)) = CHR ''>'' # (''>'' @ rest)"
        using body(2) b by (intro dropWhile_upto) simp
      moreover have "dropWhile (\<lambda>x. x \<noteq> CHR ''>'') (q @ CHR ''>'' # (''>'' @ ?R)) = ?q2 @ CHR ''>'' # (''>'' @ ?R)"
        by (rule dropWhile_to_sep)
      ultimately have "''>>'' @ rest = (?q2 @ ''>>'') @ ?R" using eq2 by simp
      then have "rest = drop 2 ((?q2 @ ''>>'') @ ?R)" by (metis append_eq_conv_conj length_Cons list.size(3) numeral_2_eq_2)
      moreover have "drop 2 ((?q2 @ ''>>'') @ ?R) = drop 2 (?q2 @ ''>>'') @ ?R"
        by (rule drop_append_le) simp
      ultimately have rest: "rest = drop 2 (?q2 @ ''>>'') @ ?R" by (simp only:)
      let ?z = "drop 2 (?q2 @ ''>>'')"
      have "?q2 = drop (length (takeWhile (\<lambda>x. x \<noteq> CHR ''>'') q)) q"
        using dropWhile_eq_drop [of "\<lambda>x. x \<noteq> CHR ''>''" q] by simp
      then have "\<not> js_includes ?q2 ''<<''"
        using name(2) no_close_drop [of q "''<<''"] by metis
      then have "plain_text (?q2 @ ''>>'')" by (rule no_open_closed)
      then have z: "plain_text ?z" by (rule plain_text_drop)
      have lt: "length rest < length (CHR ''<'' # ?w @ ?R)" unfolding eq by simp
      have "split_loop span_re lit (CHR ''<'' # ?w @ ?R) =
          lit # matched (CHR ''<'' # ?w @ ?R) rest # split_loop span_re [] rest"
        using Some m lt by (simp add: split_loop_match)
      moreover have "matched (CHR ''<'' # ?w @ ?R) rest = ''<<'' @ body @ ''>>''"
        using matched_prefix [of "''<<'' @ body @ ''>>''" rest] eq by simp
      moreover have "split_loop span_re [] (?z @ ?R) = split_loop span_re ([] @ ?z) ?R"
        unfolding span_re_def using z by (rule split_loop_plain)
      ultimately have parts: "split_loop span_re lit (CHR ''<'' # ?w @ ?R) =
          lit # (''<<'' @ body @ ''>>'') # split_loop span_re ?z ?R"
        using rest by simp
      have "first_field body = []" using b by (simp add: first_field_def)
      then have span: "render_part (''<<'' @ body @ ''>>'') = Plain (''<<'' @ body @ ''>>'')"
        by (simp only: render_part_fields simp_thms if_False)
      have "?z = [] \<or> (\<forall>x. \<not> startsWith (?z @ x) ''<<'' \<or> startsWith (?z @ x) ''<<|'')"
      proof (cases ?z)
        case Nil
        then show ?thesis by simp
      next
        case (Cons c l')
        with z have "\<forall>x. \<not> startsWith ((c # l') @ x) ''<<''" by (simp only: plain_text_opens simp_thms)
        with Cons show ?thesis by simp
      qed
      from 3(1) [OF mf 3(3) this] parts lit span src show ?thesis by simp
    qed
  qed
qed

lemma rich_malformed:
  assumes "malformed ps" "\<not> js_includes tail ''>>''"
  shows "RichInstruction (source ps @ tail) = map Plain (js_split span_re (source ps @ tail))"
    "visibleText (RichInstruction (source ps @ tail)) = source ps @ tail"
proof -
  let ?parts = "split_loop span_re [] (source ps @ tail)"
  have "list_all (\<lambda>p. render_part p = Plain p) ?parts"
    using assms by (rule split_loop_malformed) simp
  then have "map render_part ?parts = map Plain ?parts"
    by (simp add: list_all_iff)
  then show r: "RichInstruction (source ps @ tail) = map Plain (js_split span_re (source ps @ tail))"
    by (simp add: RichInstruction_def js_split_span)
  have "concat (map shown (map Plain ?parts)) = concat ?parts"
    by (simp add: comp_def)
  then show "visibleText (RichInstruction (source ps @ tail)) = source ps @ tail"
    unfolding r visibleText_def js_split_span by (simp add: concat_split_loop)
qed

subsection \<open>When the replacements change a text\<close>

lemma annotation_iff_match:
  "(\<exists>pre n q rest. s = pre @ ''<<'' @ n @ ''|'' @ q @ ''>>'' @ rest \<and>
      n \<noteq> [] \<and> CHR ''|'' \<notin> set n \<and> q \<noteq> [] \<and> CHR ''>'' \<notin> set q) \<longleftrightarrow>
   (\<exists>k. rematch clean_re (drop k s) \<noteq> None)"
proof
  assume "\<exists>pre n q rest. s = pre @ ''<<'' @ n @ ''|'' @ q @ ''>>'' @ rest \<and>
      n \<noteq> [] \<and> CHR ''|'' \<notin> set n \<and> q \<noteq> [] \<and> CHR ''>'' \<notin> set q"
  then obtain pre n q rest where s: "s = pre @ (''<<'' @ n @ ''|'' @ q @ ''>>'' @ rest)"
      and f: "n \<noteq> []" "CHR ''|'' \<notin> set n" "q \<noteq> []" "CHR ''>'' \<notin> set q"
    by auto
  have "drop (length pre) s = ''<<'' @ n @ ''|'' @ q @ ''>>'' @ rest"
    unfolding s by simp
  with clean_re_match [OF f, of rest] have "rematch clean_re (drop (length pre) s) \<noteq> None"
    by simp
  then show "\<exists>k. rematch clean_re (drop k s) \<noteq> None" ..
next
  assume "\<exists>k. rematch clean_re (drop k s) \<noteq> None"
  then obtain k caps rest where "rematch clean_re (drop k s) = Some (caps, rest)" by auto
  from clean_re_matchD [OF this]
  obtain n q where f: "n \<noteq> []" "CHR ''|'' \<notin> set n" "q \<noteq> []" "CHR ''>'' \<notin> set q"
      and d: "drop k s = ''<<'' @ n @ ''|'' @ q @ ''>>'' @ rest"
    by blast
  have "s = take k s @ drop k s" by simp
  with d have "s = take k s @ ''<<'' @ n @ ''|'' @ q @ ''>>'' @ rest" by simp
  with f show "\<exists>pre n q rest. s = pre @ ''<<'' @ n @ ''|'' @ q @ ''>>'' @ rest \<and>
      n \<noteq> [] \<and> CHR ''|'' \<notin> set n \<and> q \<noteq> [] \<and> CHR ''>'' \<notin> set q"
    by blast
qed

lemma replace_global_length:
  assumes "\<And>n q. length (sub [n, q]) \<le> length n + length q + 4"
  shows "length (replace_global clean_re sub s) \<le> length s"
proof (induction "length s" arbitrary: s rule: less_induct)
  case less
  show ?case
  proof (cases s)
    case Nil
    then show ?thesis by (simp add: clean_re_def replace_global_nil)
  next
    case (Cons c cs)
    show ?thesis
    proof (cases "rematch clean_re s")
      case None
      with Cons have "replace_global clean_re sub s = c # replace_global clean_re sub cs"
        by (simp add: replace_global_skip)
      moreover have "length (replace_global clean_re sub cs) \<le> length cs"
        using Cons by (intro less) simp
      ultimately show ?thesis using Cons by simp
    next
      case (Some m)
      obtain caps rest where m: "m = (caps, rest)" by (cases m)
      from clean_re_matchD [of s caps rest] Some m
      obtain n q where s: "s = ''<<'' @ n @ ''|'' @ q @ ''>>'' @ rest" and caps: "caps = [n, q]"
        by auto
      then have len: "length s = length n + length q + 5 + length rest" by simp
      then have lt: "length rest < length s" by simp
      from Some m lt have "replace_global clean_re sub s = sub caps @ replace_global clean_re sub rest"
        by (simp add: replace_global_match)
      moreover have "length (replace_global clean_re sub rest) \<le> length rest"
        using lt by (rule less)
      ultimately show ?thesis using assms [of n q] caps len by simp
    qed
  qed
qed

lemma replace_global_shrinks:
  assumes sub: "\<And>n q. length (sub [n, q]) \<le> length n + length q + 4"
  shows "rematch clean_re (drop k s) \<noteq> None \<Longrightarrow> length (replace_global clean_re sub s) < length s"
proof (induction s arbitrary: k)
  case Nil
  then show ?case by (simp add: clean_re_def)
next
  case (Cons c cs)
  show ?case
  proof (cases "rematch clean_re (c # cs)")
    case None
    with Cons.prems obtain k' where "k = Suc k'" by (cases k) auto
    with Cons.prems have "rematch clean_re (drop k' cs) \<noteq> None" by simp
    then have "length (replace_global clean_re sub cs) < length cs" by (rule Cons.IH)
    with None show ?thesis by (simp add: replace_global_skip)
  next
    case (Some m)
    obtain caps rest where m: "m = (caps, rest)" by (cases m)
    from clean_re_matchD [of "c # cs" caps rest] Some m
    obtain n q where s: "c # cs = ''<<'' @ n @ ''|'' @ q @ ''>>'' @ rest" and caps: "caps = [n, q]"
      by auto
    then have "length (c # cs) = length (''<<'' @ n @ ''|'' @ q @ ''>>'' @ rest)" by (simp only:)
    then have len: "length (c # cs) = length n + length q + 5 + length rest" by simp
    then have lt: "length rest < length (c # cs)" by simp
    from Some m lt have "replace_global clean_re sub (c # cs) = sub caps @ replace_global clean_re sub rest"
      by (simp add: replace_global_match)
    moreover have "length (replace_global clean_re sub rest) \<le> length rest"
      using sub by (rule replace_global_length)
    ultimately show ?thesis using sub [of n q] caps len by simp
  qed
qed

lemma replace_global_unchanged_iff:
  assumes sub: "\<And>n q. length (sub [n, q]) \<le> length n + length q + 4"
  shows "replace_global clean_re sub s = s \<longleftrightarrow>
     \<not> (\<exists>pre n q rest. s = pre @ ''<<'' @ n @ ''|'' @ q @ ''>>'' @ rest \<and>
          n \<noteq> [] \<and> CHR ''|'' \<notin> set n \<and> q \<noteq> [] \<and> CHR ''>'' \<notin> set q)"
proof (cases "\<exists>k. rematch clean_re (drop k s) \<noteq> None")
  case True
  then obtain k where "rematch clean_re (drop k s) \<noteq> None" ..
  with sub have "length (replace_global clean_re sub s) < length s" by (rule replace_global_shrinks)
  then have "replace_global clean_re sub s \<noteq> s" by auto
  with True show ?thesis by (simp only: annotation_iff_match simp_thms)
next
  case False
  then have "\<forall>k. rematch clean_re (drop k s) = None" by blast
  then have "replace_global clean_re sub s = s" by (rule replace_global_no_match)
  with False show ?thesis by (simp only: annotation_iff_match simp_thms)
qed

lemma cleanText_unchanged_iff:
  "cleanText s = s \<longleftrightarrow>
     \<not> (\<exists>pre n q rest. s = pre @ ''<<'' @ n @ ''|'' @ q @ ''>>'' @ rest \<and>
          n \<noteq> [] \<and> CHR ''|'' \<notin> set n \<and> q \<noteq> [] \<and> CHR ''>'' \<notin> set q)"
  unfolding cleanText_def by (rule replace_global_unchanged_iff) (simp add: group_def)

lemma spokenText_unchanged_iff:
  "spokenText s = s \<longleftrightarrow>
     \<not> (\<exists>pre n q rest. s = pre @ ''<<'' @ n @ ''|'' @ q @ ''>>'' @ rest \<and>
          n \<noteq> [] \<and> CHR ''|'' \<notin> set n \<and> q \<noteq> [] \<and> CHR ''>'' \<notin> set q)"
  unfolding spokenText_def speech_re_eq by (rule replace_global_unchanged_iff) (simp add: group_def)

text \<open>
  C9 (as amended). \<open>cleanText\<close> and \<open>spokenText\<close> leave a text unchanged exactly when it
  holds no complete annotation, that is no \<^verbatim>\<open><<\<close> followed by a non-empty name without
  \<^verbatim>\<open>|\<close>, a \<^verbatim>\<open>|\<close>, a non-empty quantity without \<^verbatim>\<open>>\<close>, and \<^verbatim>\<open>>>\<close>. All three transforms
  leave unchanged, and \<open>RichInstruction\<close> renders as plain parts only, every text made of
  malformed markup followed by a tail without \<^verbatim>\<open>>>\<close>: any sequence of literal pieces
  (without \<^verbatim>\<open><<\<close>, not ending in \<^verbatim>\<open><\<close>), of spans with an empty name (and no \<^verbatim>\<open><<\<close> in
  the quantity) and of spans with an empty quantity (and no \<^verbatim>\<open>>\<close> in the name), and
  then a tail in which every \<^verbatim>\<open><<\<close> is unterminated. In particular a text without any
  \<^verbatim>\<open>>>\<close> is rendered as one plain part, and plain text around one span with an empty
  field as three. All three transforms are total functions.
\<close>

theorem malformed_markup_inert:
  "(malformed ps \<and> \<not> js_includes tail ''>>'' \<longrightarrow>
      cleanText (source ps @ tail) = source ps @ tail \<and>
      spokenText (source ps @ tail) = source ps @ tail \<and>
      visibleText (RichInstruction (source ps @ tail)) = source ps @ tail \<and>
      RichInstruction (source ps @ tail) = map Plain (js_split span_re (source ps @ tail))) \<and>
   (cleanText s = s \<longleftrightarrow>
      \<not> (\<exists>before name quantity rest.
            s = before @ ''<<'' @ name @ ''|'' @ quantity @ ''>>'' @ rest \<and>
            name \<noteq> [] \<and> CHR ''|'' \<notin> set name \<and> quantity \<noteq> [] \<and> CHR ''>'' \<notin> set quantity)) \<and>
   (spokenText s = s \<longleftrightarrow>
      \<not> (\<exists>before name quantity rest.
            s = before @ ''<<'' @ name @ ''|'' @ quantity @ ''>>'' @ rest \<and>
            name \<noteq> [] \<and> CHR ''|'' \<notin> set name \<and> quantity \<noteq> [] \<and> CHR ''>'' \<notin> set quantity)) \<and>
   (\<not> js_includes text ''>>'' \<longrightarrow>
      cleanText text = text \<and> spokenText text = text \<and> RichInstruction text = [Plain text]) \<and>
   (plain_text pre \<and> plain_text post \<and> bare n \<and> bare q \<and> (n = [] \<or> q = []) \<longrightarrow>
      cleanText (pre @ ''<<'' @ n @ ''|'' @ q @ ''>>'' @ post) = pre @ ''<<'' @ n @ ''|'' @ q @ ''>>'' @ post \<and>
      spokenText (pre @ ''<<'' @ n @ ''|'' @ q @ ''>>'' @ post) = pre @ ''<<'' @ n @ ''|'' @ q @ ''>>'' @ post \<and>
      RichInstruction (pre @ ''<<'' @ n @ ''|'' @ q @ ''>>'' @ post) =
        [Plain pre, Plain (''<<'' @ n @ ''|'' @ q @ ''>>''), Plain post])"
proof -
  have a: "cleanText (source ps @ tail) = source ps @ tail \<and>
      spokenText (source ps @ tail) = source ps @ tail \<and>
      visibleText (RichInstruction (source ps @ tail)) = source ps @ tail \<and>
      RichInstruction (source ps @ tail) = map Plain (js_split span_re (source ps @ tail))"
    if "malformed ps \<and> \<not> js_includes tail ''>>''"
    using that rich_malformed [of ps tail]
    by (simp add: cleanText_def spokenText_def speech_re_eq replace_global_malformed)
  from a cleanText_unchanged_iff [of s] spokenText_unchanged_iff [of s]
    unterminated_inert [of "text"] empty_field_inert [of pre post n q]
  show ?thesis by blast
qed

theorem malformed_markup_inert_witness:
  "cleanText ''<<|a>> and <<b|>>'' = ''<<|a>> and <<b|>>'' \<and>
   spokenText ''<<|a>> and <<b|>>'' = ''<<|a>> and <<b|>>'' \<and>
   RichInstruction ''<<|a>> and <<b|>>'' =
     [Plain [], Plain ''<<|a>>'', Plain '' and '', Plain ''<<b|>>'', Plain []] \<and>
   cleanText ''>> then <<a|b'' = ''>> then <<a|b'' \<and>
   spokenText ''>> then <<a|b'' = ''>> then <<a|b'' \<and>
   RichInstruction ''>> then <<a|b'' = [Plain ''>> then <<a|b''] \<and>
   cleanText ''<<a<b|>>'' = ''<<a<b|>>'' \<and>
   spokenText ''<<a<b|>>'' = ''<<a<b|>>'' \<and>
   RichInstruction ''<<a<b|>>'' = [Plain [], Plain ''<<a<b|>>'', Plain []] \<and>
   RichInstruction ''Add <<|50g>> to pan'' = [Plain ''Add '', Plain ''<<|50g>>'', Plain '' to pan'']"
proof -
  have parts: "js_split span_re ''<<|a>> and <<b|>>'' = [[], ''<<|a>>'', '' and '', ''<<b|>>'', []]"
    "js_split span_re ''>> then <<a|b'' = [''>> then <<a|b'']"
    "js_split span_re ''<<a<b|>>'' = [[], ''<<a<b|>>'', []]"
    by code_simp+
  have "malformed [Mark [] ''a'', Text '' and '', Mark ''b'' []] \<and> \<not> js_includes [] ''>>''"
    "malformed [Text ''>> then ''] \<and> \<not> js_includes ''<<a|b'' ''>>''"
    "malformed [Mark ''a<b'' []] \<and> \<not> js_includes [] ''>>''"
    by (simp_all add: startsWith_def)
  with malformed_markup_inert [of "[Mark [] ''a'', Text '' and '', Mark ''b'' []]" "[]"]
    malformed_markup_inert [of "[Text ''>> then '']" "''<<a|b''"]
    malformed_markup_inert [of "[Mark ''a<b'' []]" "[]"]
    malformed_markup_inert [of "[]" "[]" "[]" "[]" "''Add ''" "'' to pan''" "[]" "''50g''"]
    parts
  show ?thesis by (simp add: bare_def)
qed

text \<open>
  An unterminated \<^verbatim>\<open><<\<close> followed later by a complete annotation is not inert: the
  patterns pair it with the later \<^verbatim>\<open>>>\<close>. A span with an empty name that follows a
  \<^verbatim>\<open><\<close> is read as an annotation named \<^verbatim>\<open><\<close>. A \<^verbatim>\<open><<\<close> in the quantity of a span with
  an empty name can start an annotation that ends in the text after the span, and a
  \<^verbatim>\<open>>\<close> in the name of a span with an empty quantity makes \<open>RichInstruction\<close> read the
  text up to a later \<^verbatim>\<open>>>\<close> as one annotation. A \<^verbatim>\<open>|\<close> before the last one of a span
  ends the name there, so that the quantity is not empty.
\<close>

theorem malformed_markup_inert_counterexample:
  "cleanText ''<<a|b then <<c|d>>'' = ''a'' \<and>
   spokenText ''<<a|b then <<c|d>>'' = ''b then <<c|d of a'' \<and>
   RichInstruction ''<<a|b then <<c|d>>'' = [Plain [], Ingredient ''a'' ''b then <<c'', Plain []] \<and>
   cleanText ''<<<|b>>'' = ''<'' \<and>
   spokenText ''<<<|b>>'' = ''b of <'' \<and>
   RichInstruction ''<<<|b>>'' = [Plain [], Ingredient ''<'' ''b'', Plain []] \<and>
   cleanText ''<<|x<<y>> and | z>>'' = ''<<|xy>> and '' \<and>
   RichInstruction ''<<a>b|>> x>>'' = [Ingredient ''a>b'' ''>> x''] \<and>
   cleanText ''<<a|b|>>'' = ''a''"
  by code_simp

section \<open>Properties of the audio container\<close>

lemma byte_of_word32:
  "(ucast (drop_bit k (of_nat v :: 32 word)) :: byte) = of_nat (v div 2 ^ k)" if "k \<le> 24"
proof (rule bit_word_eqI)
  fix n assume "n < LENGTH(8)"
  then have "n < 8" by simp
  with that show "bit (ucast (drop_bit k (of_nat v :: 32 word)) :: byte) n = bit (of_nat (v div 2 ^ k) :: byte) n"
    by (simp add: bit_simps flip: drop_bit_eq_div)
qed

lemma byte_of_word16:
  "(ucast (drop_bit k (of_nat v :: 16 word)) :: byte) = of_nat (v div 2 ^ k)" if "k \<le> 8"
proof (rule bit_word_eqI)
  fix n assume "n < LENGTH(8)"
  then have "n < 8" by simp
  with that show "bit (ucast (drop_bit k (of_nat v :: 16 word)) :: byte) n = bit (of_nat (v div 2 ^ k) :: byte) n"
    by (simp add: bit_simps flip: drop_bit_eq_div)
qed

lemma setUint32_le32: "setUint32 view offset v = write_at view offset (le32 v)"
  using byte_of_word32 [of 0 v] byte_of_word32 [of 8 v] byte_of_word32 [of 16 v] byte_of_word32 [of 24 v]
  by (simp add: setUint32_def le32_def Let_def)

lemma setUint16_le16: "setUint16 view offset v = write_at view offset (le16 v)"
  using byte_of_word16 [of 0 v] byte_of_word16 [of 8 v]
  by (simp add: setUint16_def le16_def Let_def)

lemma write_at_ok:
  "offset + length bs \<le> length view \<Longrightarrow>
   write_at view offset bs = Inr (take offset view @ bs @ drop (offset + length bs) view)"
  by (simp add: write_at_def)

lemma writeString_bytes:
  "offset + length s \<le> length view \<Longrightarrow>
   writeString view offset s = write_at view offset (map (of_nat \<circ> of_char) s)"
proof (induction s arbitrary: view offset)
  case Nil
  then show ?case by (simp add: write_at_def)
next
  case (Cons c s)
  let ?v1 = "take offset view @ [of_nat (of_char c)] @ drop (offset + 1) view"
  have s1: "setUint8 view offset (of_char c) = Inr ?v1"
    using Cons.prems by (simp add: setUint8_def write_at_def)
  have len: "length ?v1 = length view" using Cons.prems by simp
  have "writeString ?v1 (offset + 1) s = write_at ?v1 (offset + 1) (map (of_nat \<circ> of_char) s)"
    using Cons.prems len by (intro Cons.IH) simp
  also have "\<dots> = Inr (take (offset + 1) ?v1 @ map (of_nat \<circ> of_char) s @ drop (offset + 1 + length s) ?v1)"
    using Cons.prems len by (subst write_at_ok) simp_all
  also have "take (offset + 1) ?v1 = take offset view @ [of_nat (of_char c)]"
    using Cons.prems by simp
  also have "drop (offset + 1 + length s) ?v1 = drop (offset + 1 + length s) view"
    using Cons.prems by (simp add: add.commute)
  finally have "writeString ?v1 (offset + 1) s =
      Inr (take offset view @ map (of_nat \<circ> of_char) (c # s) @ drop (offset + length (c # s)) view)"
    by simp
  with s1 Cons.prems show ?case by (simp add: write_at_ok)
qed

text \<open>The writes of \<open>pcmToWav\<close> go through the buffer from left to right: each one
  starts where the bytes written so far end, and what follows is still zero.\<close>

lemma write_at_next:
  "offset = length P \<Longrightarrow> length bs \<le> m \<Longrightarrow>
   write_at (P @ replicate m 0) offset bs = Inr ((P @ bs) @ replicate (m - length bs) 0)"
  by (simp add: write_at_def)

lemma setUint32_next:
  "offset = length P \<Longrightarrow> 4 \<le> m \<Longrightarrow>
   setUint32 (P @ replicate m 0) offset v = Inr ((P @ le32 v) @ replicate (m - 4) 0)"
  using write_at_next [of offset P "le32 v" m] by (simp add: setUint32_le32 le32_def)

lemma setUint16_next:
  "offset = length P \<Longrightarrow> 2 \<le> m \<Longrightarrow>
   setUint16 (P @ replicate m 0) offset v = Inr ((P @ le16 v) @ replicate (m - 2) 0)"
  using write_at_next [of offset P "le16 v" m] by (simp add: setUint16_le16 le16_def)

lemma writeString_next:
  "offset = length P \<Longrightarrow> length s \<le> m \<Longrightarrow>
   writeString (P @ replicate m 0) offset s =
   Inr ((P @ map (of_nat \<circ> of_char) s) @ replicate (m - length s) 0)"
  using write_at_next [of offset P "map (of_nat \<circ> of_char) s" m]
  by (simp add: writeString_bytes)

lemma length_le32: "length (le32 v) = 4"
  by (simp add: le32_def)

lemma length_le16: "length (le16 v) = 2"
  by (simp add: le16_def)

lemma pcmToWav_layout:
  "pcmToWav pcmData sampleRate = Inr (wav_header (length pcmData) sampleRate @ pcmData)"
proof -
  let ?n = "length pcmData"
  let ?P1 = "map (of_nat \<circ> of_char) ''RIFF'' :: byte list"
  let ?P2 = "?P1 @ le32 (36 + ?n)"
  let ?P3 = "?P2 @ map (of_nat \<circ> of_char) ''WAVE''"
  let ?P4 = "?P3 @ map (of_nat \<circ> of_char) ''fmt ''"
  let ?P5 = "?P4 @ le32 16"
  let ?P6 = "?P5 @ le16 1"
  let ?P7 = "?P6 @ le16 1"
  let ?P8 = "?P7 @ le32 sampleRate"
  let ?P9 = "?P8 @ le32 (sampleRate * 1 * 16 div 8)"
  let ?P10 = "?P9 @ le16 (1 * 16 div 8)"
  let ?P11 = "?P10 @ le16 16"
  let ?P12 = "?P11 @ map (of_nat \<circ> of_char) ''data''"
  let ?P13 = "?P12 @ le32 ?n"
  note len = length_le32 length_le16
  have w1: "writeString (replicate (44 + ?n) 0) 0 ''RIFF'' = Inr (?P1 @ replicate (40 + ?n) 0)"
    using writeString_next [of 0 "[]" "''RIFF''" "44 + ?n"] by simp
  have w2: "setUint32 (?P1 @ replicate (40 + ?n) 0) 4 (36 + ?n) = Inr (?P2 @ replicate (36 + ?n) 0)"
    using setUint32_next [of 4 ?P1 "40 + ?n" "36 + ?n"] by simp
  have w3: "writeString (?P2 @ replicate (36 + ?n) 0) 8 ''WAVE'' = Inr (?P3 @ replicate (32 + ?n) 0)"
    using writeString_next [of 8 ?P2 "''WAVE''" "36 + ?n"] by (simp add: len)
  have w4: "writeString (?P3 @ replicate (32 + ?n) 0) 12 ''fmt '' = Inr (?P4 @ replicate (28 + ?n) 0)"
    using writeString_next [of 12 ?P3 "''fmt ''" "32 + ?n"] by (simp add: len)
  have w5: "setUint32 (?P4 @ replicate (28 + ?n) 0) 16 16 = Inr (?P5 @ replicate (24 + ?n) 0)"
    using setUint32_next [of 16 ?P4 "28 + ?n" 16] by (simp add: len)
  have w6: "setUint16 (?P5 @ replicate (24 + ?n) 0) 20 1 = Inr (?P6 @ replicate (22 + ?n) 0)"
    using setUint16_next [of 20 ?P5 "24 + ?n" 1] by (simp add: len)
  have w7: "setUint16 (?P6 @ replicate (22 + ?n) 0) 22 1 = Inr (?P7 @ replicate (20 + ?n) 0)"
    using setUint16_next [of 22 ?P6 "22 + ?n" 1] by (simp add: len)
  have w8: "setUint32 (?P7 @ replicate (20 + ?n) 0) 24 sampleRate = Inr (?P8 @ replicate (16 + ?n) 0)"
    using setUint32_next [of 24 ?P7 "20 + ?n" sampleRate] by (simp add: len)
  have w9: "setUint32 (?P8 @ replicate (16 + ?n) 0) 28 (sampleRate * 1 * 16 div 8) =
      Inr (?P9 @ replicate (12 + ?n) 0)"
    using setUint32_next [of 28 ?P8 "16 + ?n" "sampleRate * 1 * 16 div 8"] by (simp add: len)
  have w10: "setUint16 (?P9 @ replicate (12 + ?n) 0) 32 (1 * 16 div 8) = Inr (?P10 @ replicate (10 + ?n) 0)"
    using setUint16_next [of 32 ?P9 "12 + ?n" "1 * 16 div 8"] by (simp add: len)
  have w11: "setUint16 (?P10 @ replicate (10 + ?n) 0) 34 16 = Inr (?P11 @ replicate (8 + ?n) 0)"
    using setUint16_next [of 34 ?P10 "10 + ?n" 16] by (simp add: len)
  have w12: "writeString (?P11 @ replicate (8 + ?n) 0) 36 ''data'' = Inr (?P12 @ replicate (4 + ?n) 0)"
    using writeString_next [of 36 ?P11 "''data''" "8 + ?n"] by (simp add: len)
  have w13: "setUint32 (?P12 @ replicate (4 + ?n) 0) 40 ?n = Inr (?P13 @ replicate ?n 0)"
    using setUint32_next [of 40 ?P12 "4 + ?n" ?n] by (simp add: len)
  have w14: "write_at (?P13 @ replicate ?n 0) 44 pcmData = Inr (?P13 @ pcmData)"
    using write_at_next [of 44 ?P13 pcmData ?n] by (simp add: len)
  have "pcmToWav pcmData sampleRate = Inr (?P13 @ pcmData)"
    unfolding pcmToWav_def Let_def
    by (simp only: w1 w2 w3 w4 w5 w6 w7 w8 w9 w10 w11 w12 w13 w14 and_then.simps)
  also have "?P13 = wav_header ?n sampleRate"
    by (simp add: wav_header_def mult.commute)
  finally show ?thesis .
qed

lemma length_wav_header: "length (wav_header dataSize sampleRate) = 44"
  by (simp add: wav_header_def le32_def le16_def)

lemma wav_header_8000_24000:
  "wav_header 8000 24000 =
     [82, 73, 70, 70, 100, 31, 0, 0, 87, 65, 86, 69, 102, 109, 116, 32, 16, 0, 0, 0, 1, 0, 1, 0,
      192, 93, 0, 0, 128, 187, 0, 0, 2, 0, 16, 0, 100, 97, 116, 97, 64, 31, 0, 0]"
  by (simp add: wav_header_def le32_def le16_def)

text \<open>
  C7. \<open>pcmToWav\<close> is a function of its two arguments alone. It never fails, whatever the
  length of the samples (a multiple of the block align or not): the result has
  \<open>44 + length pcmData\<close> bytes and the samples stand unchanged from offset 44. For 8000
  bytes of samples at 24000 Hz the result has 8044 bytes, the little-endian 32-bit field
  at offset 28 holds the byte rate 48000 and the little-endian 16-bit field at offset 32
  the block align 2.
\<close>

theorem pcmToWav_container:
  "(\<exists>out. pcmToWav pcmData sampleRate = Inr out \<and>
      length out = 44 + length pcmData \<and> drop 44 out = pcmData) \<and>
   (length pcmData = 8000 \<longrightarrow>
     (\<exists>out. pcmToWav pcmData 24000 = Inr out \<and>
        length out = 44 + 8000 \<and>
        getUint32 out 28 = 48000 \<and> take 4 (drop 28 out) = [128, 187, 0, 0] \<and>
        getUint16 out 32 = 2 \<and> take 2 (drop 32 out) = [2, 0] \<and>
        drop 44 out = pcmData))"
proof (intro conjI impI)
  show "\<exists>out. pcmToWav pcmData sampleRate = Inr out \<and>
      length out = 44 + length pcmData \<and> drop 44 out = pcmData"
    by (simp add: pcmToWav_layout length_wav_header)
next
  assume len: "length pcmData = 8000"
  let ?out = "wav_header 8000 24000 @ pcmData"
  have "pcmToWav pcmData 24000 = Inr ?out"
    using len by (simp add: pcmToWav_layout)
  moreover have "length ?out = 44 + 8000"
    using len by (simp add: length_wav_header)
  moreover have "getUint32 ?out 28 = 48000" "getUint16 ?out 32 = 2"
    by (simp_all add: wav_header_8000_24000 getUint32_def getUint16_def)
  moreover have "take 4 (drop 28 ?out) = [128, 187, 0, 0]" "take 2 (drop 32 ?out) = [2, 0]"
    by (simp_all add: wav_header_8000_24000)
  moreover have "drop 44 ?out = pcmData"
    by (simp add: length_wav_header)
  ultimately show "\<exists>out. pcmToWav pcmData 24000 = Inr out \<and>
        length out = 44 + 8000 \<and>
        getUint32 out 28 = 48000 \<and> take 4 (drop 28 out) = [128, 187, 0, 0] \<and>
        getUint16 out 32 = 2 \<and> take 2 (drop 32 out) = [2, 0] \<and>
        drop 44 out = pcmData"
    by blast
qed

theorem pcmToWav_container_witness:
  "\<exists>out. pcmToWav (replicate 8000 7) 24000 = Inr out \<and>
     length out = 44 + 8000 \<and>
     getUint32 out 28 = 48000 \<and> take 4 (drop 28 out) = [128, 187, 0, 0] \<and>
     getUint16 out 32 = 2 \<and> take 2 (drop 32 out) = [2, 0] \<and>
     drop 44 out = replicate 8000 7"
  using pcmToWav_container [of "replicate 8000 7" 24000] by simp

lemma pcmToWav_odd_length:
  "pcmToWav [1, 2, 3] 24000 =
     Inr [82, 73, 70, 70, 39, 0, 0, 0, 87, 65, 86, 69, 102, 109, 116, 32, 16, 0, 0, 0, 1, 0, 1, 0,
          192, 93, 0, 0, 128, 187, 0, 0, 2, 0, 16, 0, 100, 97, 116, 97, 3, 0, 0, 0, 1, 2, 3]"
  by (simp add: pcmToWav_layout wav_header_def le32_def le16_def)

section \<open>Properties of the content generation client\<close>

lemma withRetry_rejects:
  assumes "\<forall>h. isl (fst (fn h))"
  shows "isl (fst (withRetry fn retries baseDelay h))"
proof (cases "0 < retries")
  case True
  from withRetry_loop_last_call [OF True, of fn baseDelay h]
  obtain h1 where eq: "withRetry_loop fn retries baseDelay 0 h =
     (case fst (fn h1) of
        Inr v \<Rightarrow> Returned v
      | Inl e \<Rightarrow> (case isRateLimit e of Inl thrown \<Rightarrow> Faulted thrown | Inr limited \<Rightarrow> Rethrown e),
      snd (fn h1))"
    by blast
  from assms have "isl (fst (fn h1))" by blast
  then obtain e where "fst (fn h1) = Inl e" by (cases "fst (fn h1)") auto
  with eq show ?thesis by (simp add: withRetry_def split: sum.splits)
next
  case False
  then show ?thesis by (simp add: withRetry_zero_retries)
qed

lemma try_catch_resolves:
  assumes "\<And>e h'. \<exists>v h''. handler e h' = (Inr v, h'')"
  shows "\<exists>v h'. try_catch m handler h = (Inr v, h')"
proof (cases "m h")
  case (Pair r h1)
  show ?thesis
  proof (cases r)
    case (Inl e)
    with Pair assms [of e h1] show ?thesis by (auto simp: try_catch_def)
  next
    case (Inr v)
    with Pair show ?thesis by (simp add: try_catch_def)
  qed
qed

lemma then_sync_raises:
  "\<forall>h m c. isl (api h m c) \<Longrightarrow> isl (fst (then_sync (generateContent api model contents) f h))"
proof -
  assume a: "\<forall>h m c. isl (api h m c)"
  then have "isl (api h model contents)" by blast
  then obtain e where "api h model contents = Inl e" by (cases "api h model contents") auto
  then show ?thesis by (simp add: then_sync_def generateContent_def)
qed

lemma caught_fallback:
  assumes "\<forall>h m c. isl (api h m c)"
  shows "fst (try_catch (withRetry (then_sync (generateContent api model contents) f) 3 2000)
                (\<lambda>error h. (Inr d, h @ l)) h) = Inr d"
proof -
  let ?m = "withRetry (then_sync (generateContent api model contents) f) 3 2000"
  have "isl (fst (?m h))"
    by (rule withRetry_rejects) (simp add: then_sync_raises [OF assms])
  then obtain e h' where "?m h = (Inl e, h')"
    by (cases "?m h"; cases "fst (?m h)") auto
  then show ?thesis by (simp add: try_catch_def)
qed

lemma failed_call_fallback:
  assumes "api h model contents = Inl e" "isRateLimit e \<noteq> Inr True"
  shows "try_catch (withRetry (then_sync (generateContent api model contents) f) 3 2000)
           (\<lambda>error h. (Inr d, h @ l)) h = (Inr d, h @ [Request model contents] @ l)"
proof -
  have "then_sync (generateContent api model contents) f h = (Inl e, h @ [Request model contents])"
    using assms(1) by (simp add: then_sync_def generateContent_def)
  from withRetry_one_failure [where fn = "then_sync (generateContent api model contents) f" and h = h
      and baseDelay = 2000, OF this assms(2)]
  show ?thesis by (simp add: try_catch_def)
qed

text \<open>
  C8. The best-effort operations never reject: whatever the endpoint, the parser, the
  decoder and the retries do, \<open>generateLeftoverSuggestions\<close>, \<open>generateRecipeVisual\<close> and
  \<open>generateStepAudio\<close> resolve with a value. Whenever the call they wrap in \<open>withRetry\<close>
  ends with an error (an error of the endpoint that is not retried, a rate limit on the
  last attempt, an exception of the code that reads the response, or the exception of the
  error classification), they log it and resolve with the empty array, with \<^verbatim>\<open>null\<close> and
  with \<^verbatim>\<open>null\<close>. This is so in particular when one call of the endpoint raises an error
  that is not classified as a rate limit (one request is made), and when every call of the
  endpoint raises an error, of whatever kind.
\<close>

theorem best_effort_never_rejects:
  "(\<exists>v h'. generateLeftoverSuggestions api parse ingredients currentTitle h = (Inr v, h')) \<and>
   (\<exists>v h'. generateRecipeVisual api title description h = (Inr v, h')) \<and>
   (\<exists>v h'. generateStepAudio api atob createObjectURL instr h = (Inr v, h')) \<and>
   (withRetry (then_sync (generateContent api ''gemini-2.5-flash'' (leftover_prompt ingredients currentTitle))
                 (leftover_body parse)) 3 2000 h = (Inl e, h') \<longrightarrow>
      generateLeftoverSuggestions api parse ingredients currentTitle h =
        (Inr (JArray []), h' @ [Logged ''Failed to generate leftovers:''])) \<and>
   (withRetry (then_sync (generateContent api ''gemini-2.5-flash-image'' (visual_prompt title description))
                 (\<lambda>response. Inr (first_inline (response_parts response)))) 3 2000 h = (Inl e, h') \<longrightarrow>
      generateRecipeVisual api title description h =
        (Inr None, h' @ [Logged ''Failed to generate image:''])) \<and>
   (withRetry (then_sync (generateContent api ''gemini-2.5-flash-preview-tts'' (spokenText instr))
                 (audio_body atob createObjectURL)) 3 2000 h = (Inl e, h') \<longrightarrow>
      generateStepAudio api atob createObjectURL instr h =
        (Inr None, h' @ [Logged ''Failed to generate audio:''])) \<and>
   (api h ''gemini-2.5-flash'' (leftover_prompt ingredients currentTitle) = Inl e \<and>
    isRateLimit e \<noteq> Inr True \<longrightarrow>
      generateLeftoverSuggestions api parse ingredients currentTitle h =
        (Inr (JArray []),
         h @ [Request ''gemini-2.5-flash'' (leftover_prompt ingredients currentTitle),
              Logged ''Failed to generate leftovers:''])) \<and>
   (api h ''gemini-2.5-flash-image'' (visual_prompt title description) = Inl e \<and>
    isRateLimit e \<noteq> Inr True \<longrightarrow>
      generateRecipeVisual api title description h =
        (Inr None,
         h @ [Request ''gemini-2.5-flash-image'' (visual_prompt title description),
              Logged ''Failed to generate image:''])) \<and>
   (api h ''gemini-2.5-flash-preview-tts'' (spokenText instr) = Inl e \<and>
    isRateLimit e \<noteq> Inr True \<longrightarrow>
      generateStepAudio api atob createObjectURL instr h =
        (Inr None,
         h @ [Request ''gemini-2.5-flash-preview-tts'' (spokenText instr),
              Logged ''Failed to generate audio:''])) \<and>
   ((\<forall>h m c. isl (api h m c)) \<longrightarrow>
      fst (generateLeftoverSuggestions api parse ingredients currentTitle h) = Inr (JArray []) \<and>
      fst (generateRecipeVisual api title description h) = Inr None \<and>
      fst (generateStepAudio api atob createObjectURL instr h) = Inr None)"
proof (intro conjI impI)
  show "\<exists>v h'. generateLeftoverSuggestions api parse ingredients currentTitle h = (Inr v, h')"
    unfolding generateLeftoverSuggestions_def Let_def by (rule try_catch_resolves) simp
  show "\<exists>v h'. generateRecipeVisual api title description h = (Inr v, h')"
    unfolding generateRecipeVisual_def Let_def by (rule try_catch_resolves) simp
  show "\<exists>v h'. generateStepAudio api atob createObjectURL instr h = (Inr v, h')"
    unfolding generateStepAudio_def Let_def by (rule try_catch_resolves) simp
next
  assume "withRetry (then_sync (generateContent api ''gemini-2.5-flash'' (leftover_prompt ingredients currentTitle))
                 (leftover_body parse)) 3 2000 h = (Inl e, h')"
  then show "generateLeftoverSuggestions api parse ingredients currentTitle h =
        (Inr (JArray []), h' @ [Logged ''Failed to generate leftovers:''])"
    by (simp add: generateLeftoverSuggestions_def Let_def try_catch_def)
next
  assume "withRetry (then_sync (generateContent api ''gemini-2.5-flash-image'' (visual_prompt title description))
                 (\<lambda>response. Inr (first_inline (response_parts response)))) 3 2000 h = (Inl e, h')"
  then show "generateRecipeVisual api title description h =
        (Inr None, h' @ [Logged ''Failed to generate image:''])"
    by (simp add: generateRecipeVisual_def Let_def try_catch_def)
next
  assume "withRetry (then_sync (generateContent api ''gemini-2.5-flash-preview-tts'' (spokenText instr))
                 (audio_body atob createObjectURL)) 3 2000 h = (Inl e, h')"
  then show "generateStepAudio api atob createObjectURL instr h =
        (Inr None, h' @ [Logged ''Failed to generate audio:''])"
    by (simp add: generateStepAudio_def Let_def try_catch_def)
next
  assume a: "api h ''gemini-2.5-flash'' (leftover_prompt ingredients currentTitle) = Inl e \<and>
    isRateLimit e \<noteq> Inr True"
  then show "generateLeftoverSuggestions api parse ingredients currentTitle h =
        (Inr (JArray []),
         h @ [Request ''gemini-2.5-flash'' (leftover_prompt ingredients currentTitle),
              Logged ''Failed to generate leftovers:''])"
    unfolding generateLeftoverSuggestions_def Let_def
    using failed_call_fallback [of api h "''gemini-2.5-flash''" "leftover_prompt ingredients currentTitle" e]
    by simp
next
  assume a: "api h ''gemini-2.5-flash-image'' (visual_prompt title description) = Inl e \<and>
    isRateLimit e \<noteq> Inr True"
  then show "generateRecipeVisual api title description h =
        (Inr None,
         h @ [Request ''gemini-2.5-flash-image'' (visual_prompt title description),
              Logged ''Failed to generate image:''])"
    unfolding generateRecipeVisual_def Let_def
    using failed_call_fallback [of api h "''gemini-2.5-flash-image''" "visual_prompt title description" e]
    by simp
next
  assume a: "api h ''gemini-2.5-flash-preview-tts'' (spokenText instr) = Inl e \<and>
    isRateLimit e \<noteq> Inr True"
  then show "generateStepAudio api atob createObjectURL instr h =
        (Inr None,
         h @ [Request ''gemini-2.5-flash-preview-tts'' (spokenText instr),
              Logged ''Failed to generate audio:''])"
    unfolding generateStepAudio_def Let_def
    using failed_call_fallback [of api h "''gemini-2.5-flash-preview-tts''" "spokenText instr" e]
    by simp
next
  assume a: "\<forall>h m c. isl (api h m c)"
  show "fst (generateLeftoverSuggestions api parse ingredients currentTitle h) = Inr (JArray [])"
    unfolding generateLeftoverSuggestions_def Let_def using a by (rule caught_fallback)
  show "fst (generateRecipeVisual api title description h) = Inr None"
    unfolding generateRecipeVisual_def Let_def using a by (rule caught_fallback)
  show "fst (generateStepAudio api atob createObjectURL instr h) = Inr None"
    unfolding generateStepAudio_def Let_def using a by (rule caught_fallback)
qed

text \<open>An endpoint that raises a server error on its first call only, and one that always
  answers with a rate limit.\<close>

theorem best_effort_never_rejects_witness:
  "generateRecipeVisual
      (\<lambda>h m c. if h = [] then Inl (JsError (Some 500) None (Str ''Internal error''))
                else Inr (Response None [Part (Some (InlineData ''image/png'' ''AAAA''))]))
      ''Paella'' ''Rice dish'' [] =
     (Inr None, [Request ''gemini-2.5-flash-image'' (visual_prompt ''Paella'' ''Rice dish''),
                 Logged ''Failed to generate image:'']) \<and>
   fst (generateLeftoverSuggestions (\<lambda>h m c. Inl (JsError (Some 429) None Falsy)) (\<lambda>t. Inr JNull)
          [''rice'', ''saffron''] ''Paella'' []) = Inr (JArray []) \<and>
   fst (generateRecipeVisual (\<lambda>h m c. Inl (JsError (Some 429) None Falsy)) ''Paella'' ''Rice dish'' []) = Inr None \<and>
   fst (generateStepAudio (\<lambda>h m c. Inl (JsError (Some 429) None Falsy)) (\<lambda>b. Inr []) (\<lambda>w. ''blob:1'')
          ''Add <<rice|200g>>'' []) = Inr None"
proof -
  have n: "isRateLimit (JsError (Some 500) None (Str ''Internal error'')) \<noteq> Inr True"
    by (simp add: isRateLimit_def startsWith_def)
  show ?thesis
    using best_effort_never_rejects [of "\<lambda>h m c. Inl (JsError (Some 429) None Falsy)" "\<lambda>t. Inr JNull"
        "[''rice'', ''saffron'']" "''Paella''" "[]" "''Paella''" "''Rice dish''"
        "\<lambda>b. Inr []" "\<lambda>w. ''blob:1''" "''Add <<rice|200g>>''"]
      best_effort_never_rejects
        [of "\<lambda>h m c. if h = [] then Inl (JsError (Some 500) None (Str ''Internal error''))
                else Inr (Response None [Part (Some (InlineData ''image/png'' ''AAAA''))])"
            "\<lambda>t. Inr JNull" "[]" "[]" "[]" "''Paella''" "''Rice dish''"
            "\<lambda>b. Inr []" "\<lambda>w. ''blob:1''" "[]" "JsError (Some 500) None (Str ''Internal error'')"]
      n
    by simp
qed


lemma withRetry_first_returns:
  "fn h = (Inr v, h') \<Longrightarrow> withRetry fn 3 2000 h = (Inr v, h')"
  by (simp add: withRetry_def withRetry_loop_returns)








section \<open>Properties of the background step-image loop\<close>

lemma traffic_append: "traffic (a @ b) = traffic a @ traffic b"
  by (induction a rule: traffic.induct) simp_all

lemma requests_append: "requests (a @ b) = requests a @ requests b"
  by (induction a rule: requests.induct) simp_all

lemma requests_traffic: "requests (traffic h) = requests h"
  by (induction h rule: traffic.induct) simp_all

lemma requests_replicate: "requests (replicate k (Request m c)) = replicate k (m, c)"
  by (induction k) simp_all

lemma call_traffic:
  "traffic (snd (then_sync (generateContent api m c) f h)) = traffic h @ [Request m c]"
  by (cases "api h m c") (simp_all add: then_sync_def generateContent_def traffic_append)

lemma withRetry_loop_traffic:
  "\<forall>h. traffic (snd (fn h)) = traffic h @ [ev] \<Longrightarrow> i < retries \<Longrightarrow>
    \<exists>k. 1 \<le> k \<and> k \<le> retries - i \<and>
        traffic (snd (withRetry_loop fn retries baseDelay i h)) = traffic h @ replicate k ev"
proof (induction fn retries baseDelay i h rule: withRetry_loop.induct)
  case (1 fn retries baseDelay i h)
  note fn = 1(2) and lt = 1(3)
  obtain r h' where call: "fn h = (r, h')" by (cases "fn h")
  with fn have tr: "traffic h' = traffic h @ [ev]" by (metis snd_conv)
  show ?case
  proof (cases r)
    case (Inr v)
    with call lt have "withRetry_loop fn retries baseDelay i h = (Returned v, h')"
      by (simp add: withRetry_loop_returns)
    with tr lt show ?thesis by (intro exI [of _ 1]) simp
  next
    case (Inl e)
    show ?thesis
    proof (cases "isRateLimit e")
      case thrown: (Inl t)
      with call Inl lt have "withRetry_loop fn retries baseDelay i h = (Faulted t, h')"
        by (simp add: withRetry_loop_faults)
      with tr lt show ?thesis by (intro exI [of _ 1]) simp
    next
      case classified: (Inr limited)
      show ?thesis
      proof (cases "limited \<and> Suc i < retries")
        case False
        with call Inl classified lt have "withRetry_loop fn retries baseDelay i h = (Rethrown e, h')"
          by (simp add: withRetry_loop_rethrows [where limited = limited])
        with tr lt show ?thesis by (intro exI [of _ 1]) simp
      next
        case True
        let ?h2 = "h' @ [Warned (baseDelay * 2 ^ i), Delayed (baseDelay * 2 ^ i)]"
        from True call Inl classified have step: "withRetry_loop fn retries baseDelay i h =
            withRetry_loop fn retries baseDelay (Suc i) ?h2"
          by (simp add: withRetry_loop_retries)
        from True have a: "limited \<and> int i < int retries - 1" by auto
        from True have b: "i + 1 < retries" by simp
        from 1(1) [OF lt call [symmetric] Inl classified a refl fn b]
        obtain k where k: "1 \<le> k" "k \<le> retries - (i + 1)"
            "traffic (snd (withRetry_loop fn retries baseDelay (i + 1) ?h2)) = traffic ?h2 @ replicate k ev"
          by auto
        have "traffic ?h2 = traffic h @ [ev]" using tr by (simp add: traffic_append)
        with k(3) step have "traffic (snd (withRetry_loop fn retries baseDelay i h)) =
            traffic h @ replicate (Suc k) ev"
          by simp
        with k(1,2) b show ?thesis by (intro exI [of _ "Suc k"]) simp
      qed
    qed
  qed
qed

lemma generateStepVisual_traffic:
  "\<exists>k r h'. generateStepVisual api instr prev h = (Inr r, h') \<and> 1 \<le> k \<and> k \<le> 3 \<and>
     traffic h' = traffic h @
       replicate k (Request image_model
         (step_prompt (shortInstruction (cleanText instr)) (contextStr (map cleanText prev))))"
proof -
  let ?p = "step_prompt (shortInstruction (cleanText instr)) (contextStr (map cleanText prev))"
  let ?op = "then_sync (generateContent api image_model ?p) (\<lambda>response. Inr (first_inline (response_parts response)))"
  have "\<forall>h. traffic (snd (?op h)) = traffic h @ [Request image_model ?p]"
    by (simp add: call_traffic)
  from withRetry_loop_traffic [OF this, of 0 3 2000 h]
  obtain k where k: "1 \<le> k" "k \<le> 3"
      "traffic (snd (withRetry_loop ?op 3 2000 0 h)) = traffic h @ replicate k (Request image_model ?p)"
    by auto
  obtain x h1 where w: "withRetry_loop ?op 3 2000 0 h = (x, h1)"
    by (cases "withRetry_loop ?op 3 2000 0 h")
  with k(3) have t1: "traffic h1 = traffic h @ replicate k (Request image_model ?p)" by simp
  have "\<exists>r h'. generateStepVisual api instr prev h = (Inr r, h') \<and> traffic h' = traffic h1"
    unfolding generateStepVisual_def Let_def try_catch_def withRetry_def w
    by (cases x) (simp_all add: traffic_append)
  with t1 k(1,2) show ?thesis by metis
qed

lemma loop_done:
  "\<not> i < length steps \<Longrightarrow> generateAllStepImages visual isMounted stepImages steps i h = h"
  by (simp add: generateAllStepImages.simps)

lemma loop_unmounted:
  "\<not> isMounted h \<Longrightarrow> generateAllStepImages visual isMounted stepImages steps i h = h"
  by (simp add: generateAllStepImages.simps)

lemma loop_skip:
  "i < length steps \<Longrightarrow> isMounted h \<Longrightarrow> stepImages i = Some u \<Longrightarrow> u \<noteq> [] \<Longrightarrow>
   generateAllStepImages visual isMounted stepImages steps i h =
   generateAllStepImages visual isMounted stepImages steps (Suc i) h"
  by (subst generateAllStepImages.simps) simp

lemma loop_step:
  assumes "i < length steps" "isMounted h" "stepImages i = None \<or> stepImages i = Some []"
    and "visual (instruction (steps ! i)) (map instruction (take i steps)) h = (r, h1)"
  shows "generateAllStepImages visual isMounted stepImages steps i h =
     generateAllStepImages visual isMounted stepImages steps (Suc i)
       ((case r of
           Inr (Some url) \<Rightarrow> if isMounted h1 \<and> url \<noteq> [] then h1 @ [SetStepImage i url] else h1
         | Inr None \<Rightarrow> h1
         | Inl e \<Rightarrow> h1 @ [Logged ''Failed to generate background visual for step'']) @
        (if isMounted h1 \<and> Suc i < length steps then [Paced 4000] else []))"
proof -
  have c: "\<not> (case stepImages i of None \<Rightarrow> False | Some u \<Rightarrow> u \<noteq> [])"
    using assms(3) by auto
  have "int i < int (length steps) - 1 \<longleftrightarrow> Suc i < length steps" by auto
  then show ?thesis
    by (subst generateAllStepImages.simps) (simp add: assms(1,2,4) c Let_def)
qed



lemma requests_iterations:
  "requests (concat (map (\<lambda>i. iteration_traffic steps (k i) i) idx)) =
   concat (map (\<lambda>i. replicate (k i) (image_model, prompt_of steps i)) idx)"
  by (induction idx) (simp_all add: requests_append requests_replicate iteration_traffic_def)

lemma uncached_nothing: "uncached (\<lambda>i. None) n = [0..<n]"
  by (simp add: uncached_def)

lemma prompt_of_context:
  "i < length steps \<Longrightarrow>
   prompt_of steps i =
     step_prompt (shortInstruction (cleanText (instruction (steps ! i))))
       (if i = 0 then ''Start of recipe.''
        else ''PREVIOUS STEPS CONTEXT (The dish state so far): '' @
             join ''; '' (map (cleanText \<circ> instruction) (take i steps)) @ ''.'')"
  by (simp add: prompt_of_def contextStr_def)

lemma loop_step_requests:
  assumes "i < length steps" "isMounted h" "stepImages i = None \<or> stepImages i = Some []"
  shows "\<exists>k r h1 tail. 1 \<le> k \<and> k \<le> 3 \<and>
     generateStepVisual api (instruction (steps ! i)) (map instruction (take i steps)) h = (Inr r, h1) \<and>
     requests h1 = requests h @ replicate k (image_model, prompt_of steps i) \<and>
     requests tail = [] \<and> (\<not> isMounted h1 \<longrightarrow> tail = []) \<and>
     generateAllStepImages (generateStepVisual api) isMounted stepImages steps i h =
       generateAllStepImages (generateStepVisual api) isMounted stepImages steps (Suc i) (h1 @ tail)"
proof -
  from generateStepVisual_traffic [of api "instruction (steps ! i)" "map instruction (take i steps)" h]
  obtain k r h1 where v: "generateStepVisual api (instruction (steps ! i)) (map instruction (take i steps)) h = (Inr r, h1)"
      and k: "1 \<le> k" "k \<le> 3"
      and t: "traffic h1 = traffic h @ replicate k (Request image_model
         (step_prompt (shortInstruction (cleanText (instruction (steps ! i))))
            (contextStr (map cleanText (map instruction (take i steps))))))"
    by blast
  let ?t1 = "case r of Some url \<Rightarrow> if isMounted h1 \<and> url \<noteq> [] then [SetStepImage i url] else [] | None \<Rightarrow> []"
  let ?tail = "?t1 @ (if isMounted h1 \<and> Suc i < length steps then [Paced 4000] else [])"
  have h2: "(case (Inr r :: js_error + string option) of
           Inr (Some url) \<Rightarrow> if isMounted h1 \<and> url \<noteq> [] then h1 @ [SetStepImage i url] else h1
         | Inr None \<Rightarrow> h1
         | Inl e \<Rightarrow> h1 @ [Logged ''Failed to generate background visual for step'']) = h1 @ ?t1"
    by (cases r) simp_all
  have step: "generateAllStepImages (generateStepVisual api) isMounted stepImages steps i h =
       generateAllStepImages (generateStepVisual api) isMounted stepImages steps (Suc i) (h1 @ ?tail)"
    using loop_step [where visual = "generateStepVisual api" and isMounted = isMounted
          and stepImages = stepImages, OF assms(1) assms(2) assms(3) v]
    unfolding h2 by simp
  have rt: "requests ?tail = []"
    by (cases r) (simp_all add: requests_append)
  have um: "\<not> isMounted h1 \<longrightarrow> ?tail = []"
    by (cases r) simp_all
  have "requests h1 = requests (traffic h1)" by (simp only: requests_traffic)
  also have "\<dots> = requests h @ replicate k (image_model, prompt_of steps i)"
    unfolding t by (simp add: requests_append requests_traffic requests_replicate prompt_of_def)
  finally have rq: "requests h1 = requests h @ replicate k (image_model, prompt_of steps i)" .
  from k v rq rt um step show ?thesis by blast
qed

lemma loop_requests:
  "i \<le> length steps \<Longrightarrow>
   \<exists>m k. i \<le> m \<and> m \<le> length steps \<and> (\<forall>j. 1 \<le> k j \<and> k j \<le> 3) \<and>
     requests (generateAllStepImages (generateStepVisual api) isMounted stepImages steps i h) =
       requests h @ concat (map (\<lambda>j. replicate (k j) (image_model, prompt_of steps j))
         (filter (\<lambda>j. case stepImages j of None \<Rightarrow> True | Some u \<Rightarrow> u = []) [i..<m])) \<and>
     (m < length steps \<longrightarrow>
        \<not> isMounted (generateAllStepImages (generateStepVisual api) isMounted stepImages steps i h))"
proof (induction "length steps - i" arbitrary: i h)
  case 0
  then have "\<not> i < length steps" and "i = length steps" by simp_all
  then show ?case
    by (intro exI [of _ "length steps"] exI [of _ "\<lambda>j. 1"]) (simp add: loop_done)
next
  case (Suc d)
  let ?unc = "\<lambda>j. case stepImages j of None \<Rightarrow> True | Some u \<Rightarrow> u = []"
  let ?loop = "generateAllStepImages (generateStepVisual api) isMounted stepImages steps"
  from Suc(2) have lt: "i < length steps" and d: "d = length steps - Suc i"
    and le: "Suc i \<le> length steps" by simp_all
  show ?case
  proof (cases "isMounted h")
    case False
    then have "?loop i h = h" by (rule loop_unmounted)
    with False lt show ?thesis
      by (intro exI [of _ i] exI [of _ "\<lambda>j. 1"]) simp
  next
    case mounted: True
    show ?thesis
    proof (cases "?unc i")
      case False
      then obtain u where u: "stepImages i = Some u" "u \<noteq> []"
        by (cases "stepImages i") auto
      from lt mounted have skip: "?loop i h = ?loop (Suc i) h"
        using u by (rule loop_skip [where isMounted = isMounted and stepImages = stepImages])
      from Suc(1) [OF d le, of h]
      obtain m k where m: "Suc i \<le> m" "m \<le> length steps" and k: "\<forall>j. 1 \<le> k j \<and> k j \<le> 3"
        and rq: "requests (?loop (Suc i) h) =
          requests h @ concat (map (\<lambda>j. replicate (k j) (image_model, prompt_of steps j)) (filter ?unc [Suc i..<m]))"
        and stop: "m < length steps \<longrightarrow> \<not> isMounted (?loop (Suc i) h)"
        by blast
      from m(1) have upt: "[i..<m] = i # [Suc i..<m]" by (simp add: upt_conv_Cons)
      have "requests (?loop i h) =
          requests h @ concat (map (\<lambda>j. replicate (k j) (image_model, prompt_of steps j)) (filter ?unc [i..<m]))"
        unfolding upt skip rq using False by simp
      with m k stop skip show ?thesis
        by (intro exI [of _ m] exI [of _ k]) simp
    next
      case True
      then have "stepImages i = None \<or> stepImages i = Some []"
        by (cases "stepImages i") auto
      from loop_step_requests [where isMounted = isMounted and stepImages = stepImages
          and api = api and h = h, OF lt mounted this]
      obtain k0 r h1 tail where k0: "1 \<le> k0" "k0 \<le> 3"
          and rq1: "requests h1 = requests h @ replicate k0 (image_model, prompt_of steps i)"
          and rt: "requests tail = []"
          and step: "?loop i h = ?loop (Suc i) (h1 @ tail)"
        by blast
      from Suc(1) [OF d le, of "h1 @ tail"]
      obtain m k' where m: "Suc i \<le> m" "m \<le> length steps" and k': "\<forall>j. 1 \<le> k' j \<and> k' j \<le> 3"
        and rq: "requests (?loop (Suc i) (h1 @ tail)) =
          requests (h1 @ tail) @
          concat (map (\<lambda>j. replicate (k' j) (image_model, prompt_of steps j)) (filter ?unc [Suc i..<m]))"
        and stop: "m < length steps \<longrightarrow> \<not> isMounted (?loop (Suc i) (h1 @ tail))"
        by blast
      let ?k = "k'(i := k0)"
      from m(1) have upt: "[i..<m] = i # [Suc i..<m]" by (simp add: upt_conv_Cons)
      have same: "map (\<lambda>j. replicate (?k j) (image_model, prompt_of steps j)) (filter ?unc [Suc i..<m]) =
          map (\<lambda>j. replicate (k' j) (image_model, prompt_of steps j)) (filter ?unc [Suc i..<m])"
        by (rule map_cong) auto
      have bounds: "\<forall>j. 1 \<le> ?k j \<and> ?k j \<le> 3" using k' k0 by simp
      have "concat (map (\<lambda>j. replicate (?k j) (image_model, prompt_of steps j)) (filter ?unc [i..<m])) =
          replicate k0 (image_model, prompt_of steps i) @
          concat (map (\<lambda>j. replicate (k' j) (image_model, prompt_of steps j)) (filter ?unc [Suc i..<m]))"
        unfolding upt using True by (simp add: same fun_upd_same del: fun_upd_apply)
      with step rq rq1 rt have "requests (?loop i h) =
          requests h @ concat (map (\<lambda>j. replicate (?k j) (image_model, prompt_of steps j)) (filter ?unc [i..<m]))"
        by (simp add: requests_append)
      with bounds m stop step show ?thesis
        by (intro exI [of _ m] exI [of _ ?k]) simp
    qed
  qed
qed

text \<open>
  C5 (as amended). The loop works through the steps in increasing order, one iteration
  after the other. An iteration that finds the component mounted and a truthy image for
  its step in the captured \<open>stepImages\<close> goes on to the next step without any effect. Any
  other iteration that finds the component mounted makes exactly one call of
  \<open>generateStepVisual\<close>, for its step and with the instructions of the steps before it;
  the call resolves, and after it nothing is sent before the next iteration; if the
  component is unmounted when the call ends, the loop ends there. An iteration that finds
  the component unmounted ends the loop without any effect. So the requests of a run are,
  for some \<open>m \<le> n\<close>, those of the steps below \<open>m\<close> that have no cached image, in increasing
  order, each step's prompt sent between one and three times (the retries of its call);
  \<open>m < n\<close> only when the run ended on an unmounted component, and \<open>m = n\<close> while the component
  stays mounted (every step, when nothing is cached). The context in the prompt for step
  \<open>i\<close> is \<^verbatim>\<open>Start of recipe.\<close> for \<open>i = 0\<close>, and otherwise the context header followed by
  the markup-stripped instructions of all the steps \<open>0, ..., i - 1\<close> in order, joined by
  \<^verbatim>\<open>; \<close>, and a full stop.
\<close>

theorem step_images_in_order:
  "(\<exists>m k. m \<le> length steps \<and> (\<forall>j. 1 \<le> k j \<and> k j \<le> 3) \<and>
      requests (generateAllStepImages (generateStepVisual api) isMounted stepImages steps 0 h) =
        requests h @
        concat (map (\<lambda>i. replicate (k i) (image_model, prompt_of steps i)) (uncached stepImages m)) \<and>
      (m < length steps \<longrightarrow>
         \<not> isMounted (generateAllStepImages (generateStepVisual api) isMounted stepImages steps 0 h))) \<and>
   ((\<forall>h. isMounted h) \<longrightarrow>
      (\<exists>k. (\<forall>j. 1 \<le> k j \<and> k j \<le> 3) \<and>
         requests (generateAllStepImages (generateStepVisual api) isMounted stepImages steps 0 h) =
           requests h @
           concat (map (\<lambda>i. replicate (k i) (image_model, prompt_of steps i))
                     (uncached stepImages (length steps))))) \<and>
   (\<not> isMounted h \<longrightarrow>
      generateAllStepImages (generateStepVisual api) isMounted stepImages steps i h = h) \<and>
   (i < length steps \<and> isMounted h \<and> stepImages i = Some u \<and> u \<noteq> [] \<longrightarrow>
      generateAllStepImages (generateStepVisual api) isMounted stepImages steps i h =
      generateAllStepImages (generateStepVisual api) isMounted stepImages steps (Suc i) h) \<and>
   (i < length steps \<and> isMounted h \<and> (stepImages i = None \<or> stepImages i = Some []) \<longrightarrow>
      (\<exists>k r h1 tail. 1 \<le> k \<and> k \<le> 3 \<and>
         generateStepVisual api (instruction (steps ! i)) (map instruction (take i steps)) h = (Inr r, h1) \<and>
         requests h1 = requests h @ replicate k (image_model, prompt_of steps i) \<and>
         requests tail = [] \<and> (\<not> isMounted h1 \<longrightarrow> tail = []) \<and>
         generateAllStepImages (generateStepVisual api) isMounted stepImages steps i h =
           generateAllStepImages (generateStepVisual api) isMounted stepImages steps (Suc i) (h1 @ tail))) \<and>
   uncached (\<lambda>i. None) (length steps) = [0..<length steps] \<and>
   (\<forall>i < length steps.
      prompt_of steps i =
        step_prompt (shortInstruction (cleanText (instruction (steps ! i))))
          (if i = 0 then ''Start of recipe.''
           else ''PREVIOUS STEPS CONTEXT (The dish state so far): '' @
                join ''; '' (map (cleanText \<circ> instruction) (take i steps)) @ ''.''))"
proof -
  let ?loop = "generateAllStepImages (generateStepVisual api) isMounted stepImages steps"
  from loop_requests [of 0 steps api isMounted stepImages h]
  obtain m k where m: "m \<le> length steps" and k: "\<forall>j. 1 \<le> k j \<and> k j \<le> 3"
      and rq: "requests (?loop 0 h) =
        requests h @
        concat (map (\<lambda>i. replicate (k i) (image_model, prompt_of steps i)) (uncached stepImages m))"
      and stop: "m < length steps \<longrightarrow> \<not> isMounted (?loop 0 h)"
    unfolding uncached_def by auto
  have a: "\<exists>m k. m \<le> length steps \<and> (\<forall>j. 1 \<le> k j \<and> k j \<le> 3) \<and>
      requests (?loop 0 h) =
        requests h @
        concat (map (\<lambda>i. replicate (k i) (image_model, prompt_of steps i)) (uncached stepImages m)) \<and>
      (m < length steps \<longrightarrow> \<not> isMounted (?loop 0 h))"
    using m k rq stop by blast
  have b: "\<exists>k. (\<forall>j. 1 \<le> k j \<and> k j \<le> 3) \<and>
         requests (?loop 0 h) =
           requests h @
           concat (map (\<lambda>i. replicate (k i) (image_model, prompt_of steps i))
                     (uncached stepImages (length steps)))"
    if "\<forall>h. isMounted h"
  proof -
    from that stop have "\<not> m < length steps" by blast
    with m have "m = length steps" by simp
    with k rq show ?thesis by blast
  qed
  have c: "?loop i h = h" if "\<not> isMounted h"
    using that by (rule loop_unmounted)
  have d: "?loop i h = ?loop (Suc i) h"
    if "i < length steps \<and> isMounted h \<and> stepImages i = Some u \<and> u \<noteq> []"
    using that by (simp add: loop_skip [where u = u])
  have e: "\<exists>k r h1 tail. 1 \<le> k \<and> k \<le> 3 \<and>
         generateStepVisual api (instruction (steps ! i)) (map instruction (take i steps)) h = (Inr r, h1) \<and>
         requests h1 = requests h @ replicate k (image_model, prompt_of steps i) \<and>
         requests tail = [] \<and> (\<not> isMounted h1 \<longrightarrow> tail = []) \<and>
         ?loop i h = ?loop (Suc i) (h1 @ tail)"
    if "i < length steps \<and> isMounted h \<and> (stepImages i = None \<or> stepImages i = Some [])"
    using that loop_step_requests [where isMounted = isMounted and stepImages = stepImages
        and api = api and h = h and i = i and steps = steps]
    by blast
  have f: "uncached (\<lambda>i. None) (length steps) = [0..<length steps]"
    by (rule uncached_nothing)
  have g: "\<forall>i < length steps.
      prompt_of steps i =
        step_prompt (shortInstruction (cleanText (instruction (steps ! i))))
          (if i = 0 then ''Start of recipe.''
           else ''PREVIOUS STEPS CONTEXT (The dish state so far): '' @
                join ''; '' (map (cleanText \<circ> instruction) (take i steps)) @ ''.'')"
    by (simp add: prompt_of_context)
  from a b c d e f g show ?thesis by blast
qed


lemma visual_call_ok:
  assumes "api h image_model (prompt_of steps i) = Inr resp"
  shows "generateStepVisual api (instruction (steps ! i)) (map instruction (take i steps)) h =
     (Inr (first_inline (response_parts resp)), h @ [Request image_model (prompt_of steps i)])"
proof -
  let ?op = "then_sync (generateContent api image_model (prompt_of steps i))
      (\<lambda>response. Inr (first_inline (response_parts response)))"
  have "?op h = (Inr (first_inline (response_parts resp)), h @ [Request image_model (prompt_of steps i)])"
    using assms by (simp add: then_sync_def generateContent_def)
  from withRetry_first_returns [of ?op h, OF this]
  show ?thesis
    by (simp add: generateStepVisual_def Let_def try_catch_def prompt_of_def)
qed

lemma two_steps_facts:
  "length two_steps = 2"
  "instruction (two_steps ! 0) = ''Chop <<onion|1>>''"
  "instruction (two_steps ! Suc 0) = ''Fry <<onion|1>> in <<butter|20g>>''"
  "map (cleanText \<circ> instruction) (take (Suc 0) two_steps) = [cleanText ''Chop <<onion|1>>'']"
  by (simp_all add: two_steps_def)

lemma clean_two_steps:
  "cleanText ''Chop <<onion|1>>'' = ''Chop onion''"
  "cleanText ''Fry <<onion|1>> in <<butter|20g>>'' = ''Fry onion in butter''"
  by code_simp+

lemma image_api_answer:
  "first_inline (response_parts (Response None [Part (Some (InlineData ''image/png'' ''AAAA''))])) =
     Some ''data:image/png;base64,AAAA''"
  by simp

text \<open>
  Two steps, nothing cached, and the component is unmounted while the first request is
  in flight: the loop issues the request of step 0 only.
\<close>

theorem step_images_in_order_counterexample:
  "length two_steps = 2 \<and>
   requests (generateAllStepImages (generateStepVisual image_api) (\<lambda>h. h = []) (\<lambda>i. None) two_steps 0 []) =
     [(image_model, prompt_of two_steps 0)]"
proof -
  let ?h1 = "[Request image_model (prompt_of two_steps 0)]"
  have v: "generateStepVisual image_api (instruction (two_steps ! 0)) (map instruction (take 0 two_steps)) [] =
      (Inr (Some ''data:image/png;base64,AAAA''), [] @ ?h1)"
    using visual_call_ok [of image_api "[]" two_steps 0] by (simp add: image_api_def)
  have "generateAllStepImages (generateStepVisual image_api) (\<lambda>h. h = []) (\<lambda>i. None) two_steps 0 [] =
      generateAllStepImages (generateStepVisual image_api) (\<lambda>h. h = []) (\<lambda>i. None) two_steps (Suc 0) ?h1"
    using loop_step [where visual = "generateStepVisual image_api" and isMounted = "\<lambda>h. h = []"
        and stepImages = "\<lambda>i. None" and steps = two_steps and i = 0 and h = "[]", OF _ _ _ v]
    by (simp add: two_steps_facts)
  also have "\<dots> = ?h1"
    by (rule loop_unmounted) simp
  finally show ?thesis by (simp add: two_steps_facts)
qed


theorem step_images_in_order_witness:
  "(\<exists>k. (\<forall>j. 1 \<le> k j \<and> k j \<le> 3) \<and>
      requests (generateAllStepImages (generateStepVisual image_api) (\<lambda>h. True) (\<lambda>i. None) two_steps 0 []) =
        concat (map (\<lambda>i. replicate (k i) (image_model, prompt_of two_steps i)) [0..<length two_steps])) \<and>
   generateAllStepImages (generateStepVisual image_api) (\<lambda>h. h = []) (\<lambda>i. None) two_steps 1
       [Request image_model (prompt_of two_steps 0)] =
     [Request image_model (prompt_of two_steps 0)] \<and>
   prompt_of two_steps 1 =
     step_prompt (shortInstruction ''Fry onion in butter'')
       ''PREVIOUS STEPS CONTEXT (The dish state so far): Chop onion.''"
proof -
  note run = step_images_in_order [of two_steps image_api "\<lambda>h. True" "\<lambda>i. None" "[]"]
  have "1 < length two_steps" by (simp add: two_steps_facts(1))
  with run have "prompt_of two_steps 1 =
      step_prompt (shortInstruction (cleanText (instruction (two_steps ! 1))))
        (if (1::nat) = 0 then ''Start of recipe.''
         else ''PREVIOUS STEPS CONTEXT (The dish state so far): '' @
              join ''; '' (map (cleanText \<circ> instruction) (take 1 two_steps)) @ ''.'')"
    by blast
  then have "prompt_of two_steps 1 =
     step_prompt (shortInstruction ''Fry onion in butter'')
       ''PREVIOUS STEPS CONTEXT (The dish state so far): Chop onion.''"
    by (simp add: two_steps_facts clean_two_steps)
  moreover from run have "\<exists>k. (\<forall>j. 1 \<le> k j \<and> k j \<le> 3) \<and>
      requests (generateAllStepImages (generateStepVisual image_api) (\<lambda>h. True) (\<lambda>i. None) two_steps 0 []) =
        concat (map (\<lambda>i. replicate (k i) (image_model, prompt_of two_steps i)) [0..<length two_steps])"
    by (simp add: uncached_nothing)
  moreover have "generateAllStepImages (generateStepVisual image_api) (\<lambda>h. h = []) (\<lambda>i. None) two_steps 1
       [Request image_model (prompt_of two_steps 0)] =
     [Request image_model (prompt_of two_steps 0)]"
    using step_images_in_order [of two_steps image_api "\<lambda>h. h = []" "\<lambda>i. None"
        "[Request image_model (prompt_of two_steps 0)]" 1]
    by simp
  ultimately show ?thesis by blast
qed


end
